theory Spec2Isabelle
  imports Main "HOL-Library.Multiset" "HOL-Library.Sublist" "HOL-Library.Log_Nat"
    "HOL-Library.List_Lexorder" "HOL-Library.Char_ord"
begin

section \<open>Comparator-driven merge sort (tui.go)\<close>

text \<open>
  A Go comparator \<^verbatim>\<open>func(a, b string) bool\<close> is a closure: it may read and change
  state of its own (the TUI comparator talks over channels, the console one reads
  standard input) and it may never return (the console oracle calls \<^verbatim>\<open>os.Exit\<close>).
  It is modelled as a function from the state before the call to either an abort
  \<open>Inl e\<close> or the answer paired with the state after the call. A side-effect free
  comparator is the special case \<open>pure_cmp\<close>.
\<close>

type_synonym ('s, 'e) comparator = "string \<Rightarrow> string \<Rightarrow> 's \<Rightarrow> 'e + bool \<times> 's"

definition pure_cmp :: "(string \<Rightarrow> string \<Rightarrow> bool) \<Rightarrow> ('s, 'e) comparator" where
  "pure_cmp p a b s = Inr (p a b, s)"

text \<open>
  The first loop of \<^verbatim>\<open>mergeWithCmp\<close>:
  \<^verbatim>\<open>for i < len(left) && j < len(right) { if cmp(left[i], right[j]) {...} else {...} }\<close>.
  The loop variables \<open>i\<close>, \<open>j\<close> and \<open>out\<close> are the arguments; the result is their value
  when the loop is left. Both indices are in range whenever an element is read.
\<close>

function merge_loop ::
  "('s, 'e) comparator \<Rightarrow> string list \<Rightarrow> string list \<Rightarrow> nat \<Rightarrow> nat \<Rightarrow> string list \<Rightarrow> 's
    \<Rightarrow> 'e + (nat \<times> nat \<times> string list) \<times> 's" where
  "merge_loop cmp left right i j out s =
     (if i < length left \<and> j < length right then
        (case cmp (left ! i) (right ! j) s of
           Inl e \<Rightarrow> Inl e
         | Inr (True, s') \<Rightarrow> merge_loop cmp left right (i + 1) j (out @ [left ! i]) s'
         | Inr (False, s') \<Rightarrow> merge_loop cmp left right i (j + 1) (out @ [right ! j]) s')
      else Inr ((i, j, out), s))"
  by pat_completeness auto
termination
  by (relation "measure (\<lambda>(cmp, left, right, i, j, out, s). (length left - i) + (length right - j))")
    auto

declare merge_loop.simps [simp del]

text \<open>
  The two trailing loops, \<^verbatim>\<open>for i < len(xs) { out = append(out, xs[i]); i++ }\<close>.
\<close>

function append_rest :: "string list \<Rightarrow> nat \<Rightarrow> string list \<Rightarrow> string list" where
  "append_rest xs i out =
     (if i < length xs then append_rest xs (i + 1) (out @ [xs ! i]) else out)"
  by pat_completeness auto
termination
  by (relation "measure (\<lambda>(xs, i, out). length xs - i)") auto

declare append_rest.simps [simp del]

definition mergeWithCmp ::
  "string list \<Rightarrow> string list \<Rightarrow> ('s, 'e) comparator \<Rightarrow> 's \<Rightarrow> 'e + string list \<times> 's" where
  "mergeWithCmp left right cmp s =
     (case merge_loop cmp left right 0 0 [] s of
        Inl e \<Rightarrow> Inl e
      | Inr ((i, j, out), s') \<Rightarrow> Inr (append_rest right j (append_rest left i out), s'))"

text \<open>
  \<^verbatim>\<open>mergeSortWithCmp\<close>: the copy made in the base case is the same list value; the
  slices \<^verbatim>\<open>items[:mid]\<close> and \<^verbatim>\<open>items[mid:]\<close> are \<open>take\<close> and \<open>drop\<close>. The right half is
  sorted in the state the left half's comparisons have left behind.
\<close>

function mergeSortWithCmp ::
  "string list \<Rightarrow> ('s, 'e) comparator \<Rightarrow> 's \<Rightarrow> 'e + string list \<times> 's" where
  "mergeSortWithCmp items cmp s =
     (if length items \<le> 1 then Inr (items, s)
      else
        (case mergeSortWithCmp (take (length items div 2) items) cmp s of
           Inl e \<Rightarrow> Inl e
         | Inr (left, s1) \<Rightarrow>
             (case mergeSortWithCmp (drop (length items div 2) items) cmp s1 of
                Inl e \<Rightarrow> Inl e
              | Inr (right, s2) \<Rightarrow> mergeWithCmp left right cmp s2)))"
  by pat_completeness auto
termination
  by (relation "measure (\<lambda>(items, cmp, s). length items)") auto

declare mergeSortWithCmp.simps [simp del]


subsection \<open>The merge on lists, and comparators observed\<close>

text \<open>
  \<open>emit pre r\<close> puts \<open>pre\<close> in front of the list a run returns and keeps an abort.
\<close>

fun emit :: "string list \<Rightarrow> 'e + string list \<times> 's \<Rightarrow> 'e + string list \<times> 's" where
  "emit pre (Inl e) = Inl e"
| "emit pre (Inr (zs, s)) = Inr (pre @ zs, s)"

text \<open>
  The merge seen from the unread parts \<open>drop i left\<close> and \<open>drop j right\<close> of the two
  halves. It is not a second model: \<open>mergeWithCmp_lists\<close> below proves that the
  index loops of \<open>mergeWithCmp\<close> compute exactly this.
\<close>

fun merge_lists ::
  "('s, 'e) comparator \<Rightarrow> string list \<Rightarrow> string list \<Rightarrow> 's \<Rightarrow> 'e + string list \<times> 's" where
  "merge_lists cmp [] ys s = Inr (ys, s)"
| "merge_lists cmp (x # xs) [] s = Inr (x # xs, s)"
| "merge_lists cmp (x # xs) (y # ys) s =
     (case cmp x y s of
        Inl e \<Rightarrow> Inl e
      | Inr (True, s') \<Rightarrow> emit [x] (merge_lists cmp xs (y # ys) s')
      | Inr (False, s') \<Rightarrow> emit [y] (merge_lists cmp (x # xs) ys s'))"

definition finish ::
  "string list \<Rightarrow> string list \<Rightarrow> 'e + (nat \<times> nat \<times> string list) \<times> 's \<Rightarrow> 'e + string list \<times> 's" where
  "finish left right r =
     (case r of
        Inl e \<Rightarrow> Inl e
      | Inr ((i, j, out), s') \<Rightarrow> Inr (append_rest right j (append_rest left i out), s'))"

text \<open>
  A comparator observed from outside: \<open>recorded cmp\<close> behaves as \<open>cmp\<close> and appends
  every call that returns, with its two arguments and its answer, to a log.
\<close>

definition recorded ::
  "('s, 'e) comparator \<Rightarrow> ('s \<times> (string \<times> string \<times> bool) list, 'e) comparator" where
  "recorded cmp a b sl =
     (case cmp a b (fst sl) of
        Inl e \<Rightarrow> Inl e
      | Inr (r, s') \<Rightarrow> Inr (r, (s', snd sl @ [(a, b, r)])))"

text \<open>A comparator that answers every call, in every state.\<close>

definition answers :: "('s, 'e) comparator \<Rightarrow> bool" where
  "answers cmp \<longleftrightarrow> (\<forall>a b s. \<exists>r s'. cmp a b s = Inr (r, s'))"

text \<open>
  \<open>p a b\<close> reads "\<open>a\<close> is strictly preferred to \<open>b\<close>". A strict total order is
  irreflexive, transitive, and decides every pair of different items.
\<close>

definition strict_total_order :: "(string \<Rightarrow> string \<Rightarrow> bool) \<Rightarrow> bool" where
  "strict_total_order p \<longleftrightarrow>
     (\<forall>a. \<not> p a a) \<and> (\<forall>a b c. p a b \<longrightarrow> p b c \<longrightarrow> p a c) \<and> (\<forall>a b. a \<noteq> b \<longrightarrow> p a b \<or> p b a)"

text \<open>Most preferred first: no item is strictly preferred to one placed before it.\<close>

definition ranked :: "(string \<Rightarrow> string \<Rightarrow> bool) \<Rightarrow> string list \<Rightarrow> bool" where
  "ranked p xs = sorted_wrt (\<lambda>a b. \<not> p b a) xs"

text \<open>The items the order does not distinguish from \<open>k\<close>, in their order in \<open>xs\<close>.\<close>

definition tied_with :: "(string \<Rightarrow> string \<Rightarrow> bool) \<Rightarrow> string \<Rightarrow> string list \<Rightarrow> string list" where
  "tied_with p k xs = filter (\<lambda>x. \<not> p x k \<and> \<not> p k x) xs"

section \<open>The console oracle and the console sort (main.go)\<close>

text \<open>
  The process as the console code sees it: the bytes of standard input that the
  package-level \<^verbatim>\<open>reader\<close> has not handed out yet, and everything written to
  standard output and standard error so far. Standard input is a finite byte string;
  its end is the read error \<^verbatim>\<open>io.EOF\<close>. \<^verbatim>\<open>os.Exit(code)\<close> is the abort
  \<open>Exit code w\<close>, with \<open>w\<close> the process state at that moment.
\<close>

record world =
  stdin :: string
  stdout :: string
  stderr :: string

datatype halt = Exit nat world

definition Print :: "string \<Rightarrow> world \<Rightarrow> world" where
  "Print t w = w\<lparr>stdout := stdout w @ t\<rparr>"

definition Println :: "string \<Rightarrow> world \<Rightarrow> world" where
  "Println t w = Print (t @ ''\<newline>'') w"

text \<open>
  \<^verbatim>\<open>reader.ReadString('\n')\<close>: the bytes up to and including the first newline and
  the input left after it. With no newline left the call reports \<^verbatim>\<open>io.EOF\<close> (\<open>None\<close>);
  the data in front of the end of input is returned with the error and the caller
  never looks at it.
\<close>

fun ReadString :: "string \<Rightarrow> (string \<times> string) option" where
  "ReadString [] = None"
| "ReadString (c # cs) =
     (if c = CHR ''\<newline>'' then Some ([c], cs)
      else (case ReadString cs of
              None \<Rightarrow> None
            | Some (line, rest) \<Rightarrow> Some (c # line, rest)))"

text \<open>
  \<^verbatim>\<open>strings.TrimSpace\<close> removes the leading and trailing white space runes
  (\<^verbatim>\<open>unicode.IsSpace\<close>). A Go string is a byte string holding UTF-8, so the runes are
  listed by their encodings: tab, line feed, vertical tab, form feed, carriage return,
  space, U+0085, U+00A0, U+1680, U+2000 to U+200A, U+2028, U+2029, U+202F, U+205F and
  U+3000.
\<close>

definition asciiSpace :: "char list" where
  "asciiSpace = [CHR 0x09, CHR 0x0A, CHR 0x0B, CHR 0x0C, CHR 0x0D, CHR 0x20]"

definition whiteSpace :: "string list" where
  "whiteSpace =
     map (\<lambda>c. [c]) asciiSpace
     @ [[CHR 0xC2, CHR 0x85], [CHR 0xC2, CHR 0xA0], [CHR 0xE1, CHR 0x9A, CHR 0x80]]
     @ map (\<lambda>c. [CHR 0xE2, CHR 0x80, c])
         [CHR 0x80, CHR 0x81, CHR 0x82, CHR 0x83, CHR 0x84, CHR 0x85, CHR 0x86, CHR 0x87,
          CHR 0x88, CHR 0x89, CHR 0x8A, CHR 0xA8, CHR 0xA9, CHR 0xAF]
     @ [[CHR 0xE2, CHR 0x81, CHR 0x9F], [CHR 0xE3, CHR 0x80, CHR 0x80]]"

function trimLeft :: "string list \<Rightarrow> string \<Rightarrow> string" where
  "trimLeft ws s =
     (case find (\<lambda>u. u \<noteq> [] \<and> prefix u s) ws of
        None \<Rightarrow> s
      | Some u \<Rightarrow> trimLeft ws (drop (length u) s))"
  by pat_completeness auto
termination
  apply (relation "measure (\<lambda>(ws, s). length s)")
   apply simp
  apply (auto simp: find_Some_iff prefix_def)
  done

declare trimLeft.simps [simp del]

definition TrimSpace :: "string \<Rightarrow> string" where
  "TrimSpace s = rev (trimLeft (map rev whiteSpace) (rev (trimLeft whiteSpace s)))"

text \<open>
  \<^verbatim>\<open>strings.ToLower\<close> maps every rune to its lower case. The letters A to Z go to
  a to z; two runes outside ASCII have an ASCII lower case: U+0130 (bytes C4 B0) goes
  to \<open>i\<close> and U+212A (bytes E2 84 AA) to \<open>k\<close>. The bytes of every other rune outside
  ASCII are kept as they are, where Go writes the lower case of the rune, again
  outside ASCII: the result is one of the ASCII words \<open>askPreference\<close> looks for
  exactly when Go's result is.
\<close>

definition toLowerByte :: "char \<Rightarrow> char" where
  "toLowerByte c =
     (case map_of (zip ''ABCDEFGHIJKLMNOPQRSTUVWXYZ'' ''abcdefghijklmnopqrstuvwxyz'') c of
        Some l \<Rightarrow> l
      | None \<Rightarrow> c)"

fun ToLower :: "string \<Rightarrow> string" where
  "ToLower [] = []"
| "ToLower (c # cs) =
     (if c = CHR 0xC4 \<and> take 1 cs = [CHR 0xB0] then CHR ''i'' # ToLower (drop 1 cs)
      else if c = CHR 0xE2 \<and> take 2 cs = [CHR 0x84, CHR 0xAA] then CHR ''k'' # ToLower (drop 2 cs)
      else toLowerByte c # ToLower cs)"

text \<open>The four print statements at the head of the loop of \<^verbatim>\<open>askPreference\<close>.\<close>

definition prompt :: "string \<Rightarrow> string \<Rightarrow> string" where
  "prompt a b =
     ''Which do you prefer?\<newline>'' @ ''  1) '' @ a @ ''\<newline>'' @ ''  2) '' @ b @ ''\<newline>''
     @ ''Enter 1 or 2 (or q to quit): ''"

definition invalid_notice :: string where
  "invalid_notice = ''Invalid input; please enter 1 or 2 (or q to quit).''"

text \<open>
  \<^verbatim>\<open>askPreference\<close>: one turn of the \<^verbatim>\<open>for\<close> loop per line read. The loop has no
  bound of its own; it ends because every turn consumes a line of the input.
\<close>

function askPreference :: "string \<Rightarrow> string \<Rightarrow> world \<Rightarrow> halt + bool \<times> world" where
  "askPreference a b w =
     (case ReadString (stdin w) of
        None \<Rightarrow>
          Inl (Exit 1 ((Print (prompt a b) w)
                 \<lparr>stdin := [], stderr := stderr w @ ''read error: EOF\<newline>''\<rparr>))
      | Some (resp, rest) \<Rightarrow>
          (if ToLower (TrimSpace resp) = ''1'' \<or> ToLower (TrimSpace resp) = ''a'' then
             Inr (True, (Print (prompt a b) w)\<lparr>stdin := rest\<rparr>)
           else if ToLower (TrimSpace resp) = ''2'' \<or> ToLower (TrimSpace resp) = ''b'' then
             Inr (False, (Print (prompt a b) w)\<lparr>stdin := rest\<rparr>)
           else if ToLower (TrimSpace resp) = ''q'' \<or> ToLower (TrimSpace resp) = ''quit''
                   \<or> ToLower (TrimSpace resp) = ''exit'' then
             Inl (Exit 0 (Println ''Quitting.'' ((Print (prompt a b) w)\<lparr>stdin := rest\<rparr>)))
           else
             askPreference a b
               (Println invalid_notice ((Print (prompt a b) w)\<lparr>stdin := rest\<rparr>))))"
  by pat_completeness auto
termination
proof (relation "measure (\<lambda>(a, b, w). length (stdin w))")
  show "wf (measure (\<lambda>(a, b, w). length (stdin w)))"
    by simp
next
  fix a b :: string and w :: world and x2 resp rest
  assume r: "ReadString (stdin w) = Some x2" and x2: "(resp, rest) = x2"
  have shorter: "length t < length u" if "ReadString u = Some (l, t)" for u l t
    using that by (induction u arbitrary: l) (auto split: if_splits option.splits)
  have "length rest < length (stdin w)"
    using shorter [of "stdin w" resp rest] r x2 by simp
  then show "((a, b, Println invalid_notice ((Print (prompt a b) w)\<lparr>stdin := rest\<rparr>)), (a, b, w))
      \<in> measure (\<lambda>(a, b, w). length (stdin w))"
    by (simp add: Println_def Print_def)
qed

declare askPreference.simps [simp del]

text \<open>\<^verbatim>\<open>interactiveMerge\<close> and \<^verbatim>\<open>interactiveMergeSort\<close>, written out as in main.go.\<close>

function interactive_loop ::
  "string list \<Rightarrow> string list \<Rightarrow> nat \<Rightarrow> nat \<Rightarrow> string list \<Rightarrow> world
    \<Rightarrow> halt + (nat \<times> nat \<times> string list) \<times> world" where
  "interactive_loop left right i j out w =
     (if i < length left \<and> j < length right then
        (case askPreference (left ! i) (right ! j) w of
           Inl e \<Rightarrow> Inl e
         | Inr (True, w') \<Rightarrow> interactive_loop left right (i + 1) j (out @ [left ! i]) w'
         | Inr (False, w') \<Rightarrow> interactive_loop left right i (j + 1) (out @ [right ! j]) w')
      else Inr ((i, j, out), w))"
  by pat_completeness auto
termination
  by (relation "measure (\<lambda>(left, right, i, j, out, w). (length left - i) + (length right - j))")
    auto

declare interactive_loop.simps [simp del]

definition interactiveMerge :: "string list \<Rightarrow> string list \<Rightarrow> world \<Rightarrow> halt + string list \<times> world" where
  "interactiveMerge left right w =
     (case interactive_loop left right 0 0 [] w of
        Inl e \<Rightarrow> Inl e
      | Inr ((i, j, out), w') \<Rightarrow> Inr (append_rest right j (append_rest left i out), w'))"

function interactiveMergeSort :: "string list \<Rightarrow> world \<Rightarrow> halt + string list \<times> world" where
  "interactiveMergeSort items w =
     (if length items \<le> 1 then Inr (items, w)
      else
        (case interactiveMergeSort (take (length items div 2) items) w of
           Inl e \<Rightarrow> Inl e
         | Inr (left, w1) \<Rightarrow>
             (case interactiveMergeSort (drop (length items div 2) items) w1 of
                Inl e \<Rightarrow> Inl e
              | Inr (right, w2) \<Rightarrow> interactiveMerge left right w2)))"
  by pat_completeness auto
termination
  by (relation "measure (\<lambda>(items, w). length items)") auto

declare interactiveMergeSort.simps [simp del]

text \<open>
  The console branch of \<^verbatim>\<open>main\<close> from the announcement of the questions to the
  printed ranking (the optional copy to a file left out): the ranking is printed only
  after \<^verbatim>\<open>interactiveMergeSort\<close> has returned.
\<close>

fun decimal :: "nat \<Rightarrow> string" where
  "decimal n =
     (if n < 10 then [''0123456789'' ! n]
      else decimal (n div 10) @ [''0123456789'' ! (n mod 10)])"

declare decimal.simps [simp del]

definition ranking_header :: string where
  "ranking_header = ''\<newline>Final ranking (best -> worst):''"

definition print_ranking :: "string list \<Rightarrow> world \<Rightarrow> world" where
  "print_ranking ranking w =
     fold (\<lambda>(i, it). Print (decimal (i + 1) @ ''. '' @ it @ ''\<newline>''))
       (enumerate 0 ranking) (Println ranking_header w)"

definition console_main :: "string list \<Rightarrow> world \<Rightarrow> halt + world" where
  "console_main items w =
     (case interactiveMergeSort items
             (Println ''On each prompt enter 1 or 2 to choose the item you prefer. Enter q to quit.\<newline>''
               (Print (''\<newline>Got '' @ decimal (length items)
                        @ '' items. We'll ask pairwise questions to rank them.\<newline>'') w)) of
        Inl e \<Rightarrow> Inl e
      | Inr (ranking, w') \<Rightarrow> Inr (print_ranking ranking w'))"

text \<open>One answer per line, as a user would type it: \<open>1\<close> for true and \<open>2\<close> for false.\<close>

definition answer_lines :: "bool list \<Rightarrow> string" where
  "answer_lines rs = concat (map (\<lambda>r. if r then ''1\<newline>'' else ''2\<newline>'') rs)"

section \<open>The TUI model (tui.go)\<close>

text \<open>
  A channel is known by its identity; \<open>None\<close> is the \<^verbatim>\<open>nil\<close> channel. The fields
  \<^verbatim>\<open>a\<close> and \<^verbatim>\<open>b\<close> of the Go struct \<^verbatim>\<open>model\<close> are \<open>card_a\<close> and \<open>card_b\<close> here, and
  \<^verbatim>\<open>A\<close> and \<^verbatim>\<open>B\<close> of \<^verbatim>\<open>compareRequest\<close> are \<open>reqA\<close> and \<open>reqB\<close>.
\<close>

type_synonym chan = nat

datatype compareRequest = CompareRequest (reqA: string) (reqB: string) (Resp: "chan option")

record model =
  compCh :: chan
  card_a :: string
  card_b :: string
  req :: "chan option"
  status :: string

datatype msg =
    CmpRequestMsg compareRequest
  | KeyMsg string
  | QuitMsg
  | WindowSizeMsg
  | TickMsg
  | NilMsg

datatype cmd = Quit

definition initialModel :: "chan \<Rightarrow> model" where
  "initialModel ch =
     \<lparr>compCh = ch, card_a = [], card_b = [], req = None,
      status = ''Waiting for first comparison...''\<rparr>"

definition Init :: "model \<Rightarrow> cmd option" where
  "Init m = None"

definition choose_status :: string where
  "choose_status =
     ''Use '' @ [CHR 0xE2, CHR 0x86, CHR 0x90] @ '' / '' @ [CHR 0xE2, CHR 0x86, CHR 0x92]
     @ '' (or h / l) to choose. Enter q to quit.''"

text \<open>
  \<^verbatim>\<open>Update\<close> returns the new model and the command, and here also the values it has
  sent on channels during the call (\<^verbatim>\<open>m.req <- true\<close> is the entry \<open>(ch, True)\<close>).
  The argument of \<open>KeyMsg\<close> is what \<^verbatim>\<open>msg.String()\<close> returns for the key.
\<close>

fun Update :: "model \<Rightarrow> msg \<Rightarrow> model \<times> cmd option \<times> (chan \<times> bool) list" where
  "Update m (CmpRequestMsg r) =
     (m\<lparr>card_a := reqA r, card_b := reqB r, req := Resp r, status := choose_status\<rparr>,
      Init (m\<lparr>card_a := reqA r, card_b := reqB r, req := Resp r, status := choose_status\<rparr>),
      [])"
| "Update m (KeyMsg k) =
     (if k = ''left'' \<or> k = ''h'' then
        (case req m of
           Some ch \<Rightarrow> (m\<lparr>req := None, status := ''Sent choice: left''\<rparr>, None, [(ch, True)])
         | None \<Rightarrow> (m, None, []))
      else if k = ''right'' \<or> k = ''l'' then
        (case req m of
           Some ch \<Rightarrow> (m\<lparr>req := None, status := ''Sent choice: right''\<rparr>, None, [(ch, False)])
         | None \<Rightarrow> (m, None, []))
      else if k = ''q'' \<or> k = ''ctrl+c'' then (m, Some Quit, [])
      else (m, None, []))"
| "Update m QuitMsg = (m, Some Quit, [])"
| "Update m WindowSizeMsg = (m, None, [])"
| "Update m TickMsg = (m, None, [])"
| "Update m NilMsg = (m, None, [])"

text \<open>
  The program loop feeds messages to \<^verbatim>\<open>Update\<close> one after the other; \<open>run\<close> returns
  the model reached and all values sent, oldest first.
\<close>

fun run :: "model \<Rightarrow> msg list \<Rightarrow> model \<times> (chan \<times> bool) list" where
  "run m [] = (m, [])"
| "run m (x # xs) =
     (case Update m x of
        (m', c, sent) \<Rightarrow> (case run m' xs of (m'', sent') \<Rightarrow> (m'', sent @ sent')))"

text \<open>The reply channels of the requests in a sequence of messages, in order.\<close>

fun request_chans :: "msg list \<Rightarrow> chan list" where
  "request_chans [] = []"
| "request_chans (CmpRequestMsg r # xs) =
     (case Resp r of None \<Rightarrow> request_chans xs | Some ch \<Rightarrow> ch # request_chans xs)"
| "request_chans (x # xs) = request_chans xs"


section \<open>Notions used to state the claims\<close>

text \<open>
  \<open>recursive_call cmp items s sub t\<close>: while it sorts \<open>items\<close> from state \<open>s\<close>,
  \<open>mergeSortWithCmp\<close> calls itself on \<open>sub\<close> in state \<open>t\<close>. The call on the right
  half starts in the state in which the call on the left half has returned.
\<close>

inductive recursive_call ::
  "('s, 'e) comparator \<Rightarrow> string list \<Rightarrow> 's \<Rightarrow> string list \<Rightarrow> 's \<Rightarrow> bool"
  for cmp :: "('s, 'e) comparator" and items :: "string list" and s :: 's where
  whole: "recursive_call cmp items s items s"
| left_half:
    "recursive_call cmp items s sub t \<Longrightarrow> 1 < length sub \<Longrightarrow>
     recursive_call cmp items s (take (length sub div 2) sub) t"
| right_half:
    "recursive_call cmp items s sub t \<Longrightarrow> 1 < length sub \<Longrightarrow>
     mergeSortWithCmp (take (length sub div 2) sub) cmp t = Inr (left, t1) \<Longrightarrow>
     recursive_call cmp items s (drop (length sub div 2) sub) t1"


text \<open>
  The answers in a log of calls, the prompts \<open>askPreference\<close> prints for the
  requests in it, and the console state in which the lines for the answers \<open>rs\<close> are
  the next input.
\<close>

definition answers_of :: "(string \<times> string \<times> bool) list \<Rightarrow> bool list" where
  "answers_of calls = map (\<lambda>(a, b, r). r) calls"

definition prompts_of :: "(string \<times> string \<times> bool) list \<Rightarrow> string" where
  "prompts_of calls = concat (map (\<lambda>(a, b, r). prompt a b) calls)"

definition fed :: "bool list \<Rightarrow> string \<Rightarrow> string \<Rightarrow> string \<Rightarrow> world" where
  "fed rs rest pre err = \<lparr>stdin = answer_lines rs @ rest, stdout = pre, stderr = err\<rparr>"

text \<open>
  A plain byte is an ASCII byte that is not white space. A line is a piece of input
  that ends with its only newline; it is recognised when \<open>askPreference\<close> has a case
  for it.
\<close>

definition plain :: "char \<Rightarrow> bool" where
  "plain c \<longleftrightarrow> of_char c < (128::nat) \<and> c \<notin> set asciiSpace"

definition one_line :: "string \<Rightarrow> bool" where
  "one_line l \<longleftrightarrow> l \<noteq> [] \<and> last l = CHR ''\<newline>'' \<and> CHR ''\<newline>'' \<notin> set (butlast l)"

definition recognised :: "string \<Rightarrow> bool" where
  "recognised l \<longleftrightarrow>
     ToLower (TrimSpace l) \<in> set [''1'', ''a'', ''2'', ''b'', ''q'', ''quit'', ''exit'']"

text \<open>The channel on which the model still owes a reply, as a list of at most one.\<close>

definition pending :: "model \<Rightarrow> chan list" where
  "pending m = (case req m of None \<Rightarrow> [] | Some ch \<Rightarrow> [ch])"

section \<open>Basic facts about the merge and the sort\<close>

text \<open>The trailing loops copy the unread part of a half.\<close>

lemma append_rest_drop: "append_rest xs i out = out @ drop i xs"
proof (induction xs i out rule: append_rest.induct)
  case (1 xs i out)
  show ?case
  proof (cases "i < length xs")
    case True
    then show ?thesis using 1 by (subst append_rest.simps) (simp add: Cons_nth_drop_Suc)
  next
    case False
    then show ?thesis by (subst append_rest.simps) simp
  qed
qed

lemma emit_emit: "emit p (emit q r) = emit (p @ q) r"
  by (cases r) (auto split: prod.splits)

lemma emit_Nil: "emit [] r = r"
  by (cases r) auto

lemma emit_Inr_iff: "emit p r = Inr (zs, s) \<longleftrightarrow> (\<exists>ys. r = Inr (ys, s) \<and> zs = p @ ys)"
  by (cases r) auto

lemma emit_Inl_iff: "emit p r = Inl e \<longleftrightarrow> r = Inl e"
  by (cases r) auto

lemma merge_lists_Nil2: "merge_lists cmp xs [] s = Inr (xs, s)"
  by (cases xs) auto

lemma merge_loop_lists:
  "finish left right (merge_loop cmp left right i j out s)
     = emit out (merge_lists cmp (drop i left) (drop j right) s)"
proof (induction cmp left right i j out s rule: merge_loop.induct)
  case (1 cmp left right i j out s)
  show ?case
  proof (cases "i < length left \<and> j < length right")
    case inside: True
    then have d: "drop i left = left ! i # drop (Suc i) left"
      "drop j right = right ! j # drop (Suc j) right"
      by (simp_all add: Cons_nth_drop_Suc)
    show ?thesis
    proof (cases "cmp (left ! i) (right ! j) s")
      case (Inl e)
      then show ?thesis using inside
        by (subst merge_loop.simps) (simp add: d finish_def)
    next
      case (Inr p)
      obtain b s' where p: "p = (b, s')" by (cases p)
      show ?thesis
      proof (cases b)
        case True
        have "finish left right (merge_loop cmp left right (i + 1) j (out @ [left ! i]) s')
          = emit (out @ [left ! i]) (merge_lists cmp (drop (i + 1) left) (drop j right) s')"
          using 1(1) inside Inr p True by simp
        then show ?thesis using inside Inr p True
          by (subst merge_loop.simps) (simp add: d emit_emit)
      next
        case False
        have "finish left right (merge_loop cmp left right i (j + 1) (out @ [right ! j]) s')
          = emit (out @ [right ! j]) (merge_lists cmp (drop i left) (drop (j + 1) right) s')"
          using 1(2) inside Inr p False by simp
        then show ?thesis using inside Inr p False
          by (subst merge_loop.simps) (simp add: d emit_emit)
      qed
    qed
  next
    case False
    then show ?thesis
      by (subst merge_loop.simps) (auto simp: finish_def append_rest_drop merge_lists_Nil2)
  qed
qed

lemma mergeWithCmp_lists: "mergeWithCmp left right cmp s = merge_lists cmp left right s"
  using merge_loop_lists [of left right cmp 0 0 "[]" s]
  unfolding mergeWithCmp_def finish_def by (simp add: emit_Nil)

lemma sort_small: "length items \<le> 1 \<Longrightarrow> mergeSortWithCmp items cmp s = Inr (items, s)"
  by (subst mergeSortWithCmp.simps) simp

lemma sort_unfold:
  "1 < length items \<Longrightarrow>
   mergeSortWithCmp items cmp s =
     (case mergeSortWithCmp (take (length items div 2) items) cmp s of
        Inl e \<Rightarrow> Inl e
      | Inr (left, s1) \<Rightarrow>
          (case mergeSortWithCmp (drop (length items div 2) items) cmp s1 of
             Inl e \<Rightarrow> Inl e
           | Inr (right, s2) \<Rightarrow> merge_lists cmp left right s2))"
  by (subst mergeSortWithCmp.simps) (auto simp: mergeWithCmp_lists split: sum.splits prod.splits)

lemma sort_stepE:
  assumes "1 < length items" and "mergeSortWithCmp items cmp s = Inr (out, s')"
  obtains left s1 right s2 where
    "mergeSortWithCmp (take (length items div 2) items) cmp s = Inr (left, s1)"
    "mergeSortWithCmp (drop (length items div 2) items) cmp s1 = Inr (right, s2)"
    "merge_lists cmp left right s2 = Inr (out, s')"
  using assms(2) unfolding sort_unfold [OF assms(1)] by (auto split: sum.splits prod.splits)

lemma merge_lists_mset:
  "merge_lists cmp xs ys s = Inr (zs, s') \<Longrightarrow> mset zs = mset xs + mset ys"
proof (induction cmp xs ys s arbitrary: zs s' rule: merge_lists.induct)
  case (3 cmp x xs y ys s)
  show ?case
  proof (cases "cmp x y s")
    case (Inl e)
    then show ?thesis using 3(3) by simp
  next
    case (Inr p)
    obtain b s1 where p: "p = (b, s1)" by (cases p)
    show ?thesis
    proof (cases b)
      case True
      with 3(3) Inr p obtain ws where "merge_lists cmp xs (y # ys) s1 = Inr (ws, s')" "zs = x # ws"
        by (auto simp: emit_Inr_iff)
      then show ?thesis using 3(1) [OF Inr [unfolded p] refl] True by simp
    next
      case False
      with 3(3) Inr p obtain ws where "merge_lists cmp (x # xs) ys s1 = Inr (ws, s')" "zs = y # ws"
        by (auto simp: emit_Inr_iff)
      then show ?thesis using 3(2) [OF Inr [unfolded p] refl] False by simp
    qed
  qed
qed simp_all

lemma merge_lists_subseq:
  "merge_lists cmp xs ys s = Inr (zs, s') \<Longrightarrow> subseq xs zs \<and> subseq ys zs"
proof (induction cmp xs ys s arbitrary: zs s' rule: merge_lists.induct)
  case (3 cmp x xs y ys s)
  show ?case
  proof (cases "cmp x y s")
    case (Inl e)
    then show ?thesis using 3(3) by simp
  next
    case (Inr p)
    obtain b s1 where p: "p = (b, s1)" by (cases p)
    show ?thesis
    proof (cases b)
      case True
      with 3(3) Inr p obtain ws where "merge_lists cmp xs (y # ys) s1 = Inr (ws, s')" "zs = x # ws"
        by (auto simp: emit_Inr_iff)
      then show ?thesis using 3(1) [OF Inr [unfolded p] refl] True by (auto dest: subseq_Cons')
    next
      case False
      with 3(3) Inr p obtain ws where "merge_lists cmp (x # xs) ys s1 = Inr (ws, s')" "zs = y # ws"
        by (auto simp: emit_Inr_iff)
      then show ?thesis using 3(2) [OF Inr [unfolded p] refl] False by (auto dest: subseq_Cons')
    qed
  qed
qed simp_all



lemma sort_mset:
  "mergeSortWithCmp items cmp s = Inr (out, s') \<Longrightarrow> mset out = mset items"
proof (induction "length items" arbitrary: items s out s' rule: less_induct)
  case less
  show ?case
  proof (cases "length items \<le> 1")
    case True
    then show ?thesis using less.prems by (simp add: sort_small)
  next
    case False
    then have big: "1 < length items" by simp
    from big less.prems obtain left s1 right s2 where
      l: "mergeSortWithCmp (take (length items div 2) items) cmp s = Inr (left, s1)" and
      r: "mergeSortWithCmp (drop (length items div 2) items) cmp s1 = Inr (right, s2)" and
      m: "merge_lists cmp left right s2 = Inr (out, s')"
      by (rule sort_stepE)
    have "mset left = mset (take (length items div 2) items)"
      using less.hyps [OF _ l] big by simp
    moreover have "mset right = mset (drop (length items div 2) items)"
      using less.hyps [OF _ r] big by simp
    ultimately have "mset out = mset (take (length items div 2) items @ drop (length items div 2) items)"
      using merge_lists_mset [OF m] by (simp only: mset_append)
    then show ?thesis by (simp only: append_take_drop_id)
  qed
qed


text \<open>The console sort is the generic sort with \<open>askPreference\<close> as its comparator.\<close>

lemma interactive_loop_generic:
  "interactive_loop left right i j out w = merge_loop askPreference left right i j out w"
proof (induction left right i j out w rule: interactive_loop.induct)
  case (1 left right i j out w)
  show ?case
  proof (cases "i < length left \<and> j < length right")
    case inside: True
    show ?thesis
    proof (cases "askPreference (left ! i) (right ! j) w")
      case (Inl e)
      then show ?thesis using inside
        by (subst interactive_loop.simps, subst merge_loop.simps) simp
    next
      case (Inr p)
      obtain b w' where p: "p = (b, w')" by (cases p)
      show ?thesis
      proof (cases b)
        case True
        then show ?thesis using inside Inr p 1(1) [OF inside Inr [unfolded p] refl]
          by (subst interactive_loop.simps, subst merge_loop.simps) simp
      next
        case False
        then show ?thesis using inside Inr p 1(2) [OF inside Inr [unfolded p] refl]
          by (subst interactive_loop.simps, subst merge_loop.simps) simp
      qed
    qed
  next
    case False
    then show ?thesis
      by (subst interactive_loop.simps, subst merge_loop.simps) auto
  qed
qed

lemma interactiveMerge_generic:
  "interactiveMerge left right w = mergeWithCmp left right askPreference w"
  by (simp add: interactiveMerge_def mergeWithCmp_def interactive_loop_generic)

lemma interactiveMergeSort_generic:
  "interactiveMergeSort items w = mergeSortWithCmp items askPreference w"
proof (induction "length items" arbitrary: items w rule: less_induct)
  case less
  show ?case
  proof (cases "length items \<le> 1")
    case True
    then show ?thesis
      by (subst interactiveMergeSort.simps, subst mergeSortWithCmp.simps) simp
  next
    case False
    then have l: "interactiveMergeSort (take (length items div 2) items) v
        = mergeSortWithCmp (take (length items div 2) items) askPreference v" for v
      by (intro less.hyps) simp
    from False have r: "interactiveMergeSort (drop (length items div 2) items) v
        = mergeSortWithCmp (drop (length items div 2) items) askPreference v" for v
      by (intro less.hyps) simp
    show ?thesis
      by (subst interactiveMergeSort.simps, subst mergeSortWithCmp.simps)
        (auto simp: l r interactiveMerge_generic split: sum.splits prod.splits)
  qed
qed

lemma halves_shorter:
  "1 < length items \<Longrightarrow> length (take (length items div 2) items) < length items"
  "1 < length items \<Longrightarrow> length (drop (length items div 2) items) < length items"
  by simp_all

text \<open>A comparator that always answers makes the merge and the sort return.\<close>

lemma merge_lists_returns:
  "answers cmp \<Longrightarrow> \<exists>zs s'. merge_lists cmp xs ys s = Inr (zs, s')"
proof (induction cmp xs ys s rule: merge_lists.induct)
  case (3 cmp x xs y ys s)
  from 3(3) obtain b s1 where c: "cmp x y s = Inr (b, s1)"
    unfolding answers_def by blast
  show ?case
  proof (cases b)
    case True
    from 3(1) [OF c refl _ 3(3)] True show ?thesis using c by auto
  next
    case False
    from 3(2) [OF c refl _ 3(3)] False show ?thesis using c by auto
  qed
qed simp_all

lemma sort_returns:
  "answers cmp \<Longrightarrow> \<exists>out s'. mergeSortWithCmp items cmp s = Inr (out, s')"
proof (induction "length items" arbitrary: items s rule: less_induct)
  case less
  show ?case
  proof (cases "length items \<le> 1")
    case True
    then show ?thesis by (simp add: sort_small)
  next
    case False
    then have big: "1 < length items" by simp
    from big less.prems obtain left s1 where
      l: "mergeSortWithCmp (take (length items div 2) items) cmp s = Inr (left, s1)"
      using less.hyps [OF halves_shorter(1) less.prems, OF big, of s] by blast
    from big less.prems obtain right s2 where
      r: "mergeSortWithCmp (drop (length items div 2) items) cmp s1 = Inr (right, s2)"
      using less.hyps [OF halves_shorter(2) less.prems, OF big, of s1] by blast
    from merge_lists_returns [OF less.prems] obtain out s' where
      "merge_lists cmp left right s2 = Inr (out, s')" by blast
    then show ?thesis
      unfolding sort_unfold [OF big] using l r by simp
  qed
qed

lemma answers_pure: "answers (pure_cmp p)"
  by (simp add: answers_def pure_cmp_def)

lemmas console_eval = askPreference.simps TrimSpace_def trimLeft.simps whiteSpace_def
  asciiSpace_def toLowerByte_def Print_def Println_def prompt_def invalid_notice_def

text \<open>Every recursive call returns a list that is a subsequence of the final ranking.\<close>

lemma recursive_call_subseq:
  assumes "recursive_call cmp items s sub t"
    and "mergeSortWithCmp items cmp s = Inr (ranking, s')"
  shows "\<exists>part t'. mergeSortWithCmp sub cmp t = Inr (part, t') \<and> subseq part ranking"
  using assms
proof (induction rule: recursive_call.induct)
  case whole
  then show ?case by auto
next
  case (left_half sub t)
  then obtain part t' where p: "mergeSortWithCmp sub cmp t = Inr (part, t')" "subseq part ranking"
    by blast
  from left_half(2) p(1) obtain left s1 right s2 where
    l: "mergeSortWithCmp (take (length sub div 2) sub) cmp t = Inr (left, s1)" and
    m: "merge_lists cmp left right s2 = Inr (part, t')"
    by (rule sort_stepE)
  from merge_lists_subseq [OF m] p(2) have "subseq left ranking"
    using subseq_order.trans by blast
  with l show ?case by blast
next
  case (right_half sub t left t1)
  then obtain part t' where p: "mergeSortWithCmp sub cmp t = Inr (part, t')" "subseq part ranking"
    by blast
  from right_half(2) p(1) obtain left' s1 right s2 where
    l: "mergeSortWithCmp (take (length sub div 2) sub) cmp t = Inr (left', s1)" and
    r: "mergeSortWithCmp (drop (length sub div 2) sub) cmp s1 = Inr (right, s2)" and
    m: "merge_lists cmp left' right s2 = Inr (part, t')"
    by (rule sort_stepE)
  from l right_half(3) have "s1 = t1" by simp
  moreover from merge_lists_subseq [OF m] p(2) have "subseq right ranking"
    using subseq_order.trans by blast
  ultimately show ?case using r by blast
qed


text \<open>
  A run of the sort with any comparator can be replayed at the console: typing the
  answers the comparator gave makes the console sort ask the same questions in the
  same order and return the same ranking.
\<close>

lemma askPreference_answer_line:
  "askPreference a b (fed [r] rest pre err) = Inr (r, \<lparr>stdin = rest, stdout = pre @ prompt a b, stderr = err\<rparr>)"
  by (cases r)
    (simp_all add: fed_def answer_lines_def askPreference.simps TrimSpace_def trimLeft.simps
      whiteSpace_def asciiSpace_def toLowerByte_def Print_def)

lemma fed_append: "fed (rs @ rs') rest pre err = fed rs (answer_lines rs' @ rest) pre err"
  by (simp add: fed_def answer_lines_def)

lemma fed_Nil: "fed [] rest pre err = \<lparr>stdin = rest, stdout = pre, stderr = err\<rparr>"
  by (simp add: fed_def answer_lines_def)

lemma merge_lists_replay:
  assumes "c = recorded cmp" and "merge_lists c xs ys sl = Inr (out, sl')"
  shows "\<exists>new. snd sl' = snd sl @ new \<and>
          (\<forall>rest pre err. merge_lists askPreference xs ys (fed (answers_of new) rest pre err)
              = Inr (out, \<lparr>stdin = rest, stdout = pre @ prompts_of new, stderr = err\<rparr>))"
  using assms
proof (induction c xs ys sl arbitrary: out sl' rule: merge_lists.induct)
  case (1 c ys sl)
  then have "snd sl' = snd sl @ []" "out = ys" by auto
  then show ?case
    by (intro exI [of _ "[]"]) (simp add: answers_of_def prompts_of_def fed_Nil)
next
  case (2 c x xs sl)
  then have "snd sl' = snd sl @ []" "out = x # xs" by auto
  then show ?case
    by (intro exI [of _ "[]"]) (simp add: answers_of_def prompts_of_def fed_Nil)
next
  case (3 c x xs y ys sl)
  from 3(4) obtain p where c: "c x y sl = Inr p"
    by (cases "c x y sl") auto
  obtain r sl1 where p: "p = (r, sl1)" by (cases p)
  from c p 3(3) have log1: "snd sl1 = snd sl @ [(x, y, r)]"
    by (auto simp: recorded_def split: sum.splits)
  let ?xs' = "if r then xs else x # xs" and ?ys' = "if r then y # ys else ys"
  let ?z = "if r then x else y"
  from 3(4) c p obtain zs where
    rec: "merge_lists c ?xs' ?ys' sl1 = Inr (zs, sl')" and out: "out = ?z # zs"
    by (cases r) (auto simp: emit_Inr_iff)
  have "\<exists>new. snd sl' = snd sl1 @ new \<and>
          (\<forall>rest pre err. merge_lists askPreference ?xs' ?ys' (fed (answers_of new) rest pre err)
              = Inr (zs, \<lparr>stdin = rest, stdout = pre @ prompts_of new, stderr = err\<rparr>))"
  proof (cases r)
    case True
    with 3(1) [OF c [unfolded p] refl _ 3(3)] rec show ?thesis by simp
  next
    case False
    with 3(2) [OF c [unfolded p] refl _ 3(3)] rec show ?thesis by simp
  qed
  then obtain new where new: "snd sl' = snd sl1 @ new" and
    replay: "\<And>rest pre err. merge_lists askPreference ?xs' ?ys' (fed (answers_of new) rest pre err)
              = Inr (zs, \<lparr>stdin = rest, stdout = pre @ prompts_of new, stderr = err\<rparr>)"
    by blast
  have "merge_lists askPreference (x # xs) (y # ys) (fed (answers_of ((x, y, r) # new)) rest pre err)
              = Inr (out, \<lparr>stdin = rest, stdout = pre @ prompts_of ((x, y, r) # new), stderr = err\<rparr>)"
    for rest pre err
  proof -
    have "fed (answers_of ((x, y, r) # new)) rest pre err
        = fed [r] (answer_lines (answers_of new) @ rest) pre err"
      using fed_append [of "[r]" "answers_of new"] by (simp add: answers_of_def)
    moreover have "\<lparr>stdin = answer_lines (answers_of new) @ rest, stdout = pre @ prompt x y, stderr = err\<rparr>
        = fed (answers_of new) rest (pre @ prompt x y) err"
      by (simp add: fed_def)
    ultimately show ?thesis
      using replay [of rest "pre @ prompt x y" err] out
      by (cases r) (simp_all add: askPreference_answer_line prompts_of_def)
  qed
  with new log1 show ?case
    by (intro exI [of _ "(x, y, r) # new"]) simp
qed

lemma sort_replay:
  "mergeSortWithCmp items (recorded cmp) sl = Inr (out, sl') \<Longrightarrow>
   \<exists>new. snd sl' = snd sl @ new \<and>
     (\<forall>rest pre err. mergeSortWithCmp items askPreference (fed (answers_of new) rest pre err)
         = Inr (out, \<lparr>stdin = rest, stdout = pre @ prompts_of new, stderr = err\<rparr>))"
proof (induction "length items" arbitrary: items sl out sl' rule: less_induct)
  case less
  show ?case
  proof (cases "length items \<le> 1")
    case True
    with less.prems have "snd sl' = snd sl @ []" "out = items"
      by (simp_all add: sort_small)
    then show ?thesis using True
      by (intro exI [of _ "[]"]) (simp add: sort_small answers_of_def prompts_of_def fed_Nil)
  next
    case False
    then have big: "1 < length items" by simp
    let ?l = "take (length items div 2) items" and ?r = "drop (length items div 2) items"
    from big less.prems obtain left s1 right s2 where
      l: "mergeSortWithCmp ?l (recorded cmp) sl = Inr (left, s1)" and
      r: "mergeSortWithCmp ?r (recorded cmp) s1 = Inr (right, s2)" and
      m: "merge_lists (recorded cmp) left right s2 = Inr (out, sl')"
      by (rule sort_stepE)
    from less.hyps [OF halves_shorter(1) [OF big] l] obtain n1 where
      n1: "snd s1 = snd sl @ n1" and
      r1: "\<And>rest pre err. mergeSortWithCmp ?l askPreference (fed (answers_of n1) rest pre err)
         = Inr (left, \<lparr>stdin = rest, stdout = pre @ prompts_of n1, stderr = err\<rparr>)"
      by blast
    from less.hyps [OF halves_shorter(2) [OF big] r] obtain n2 where
      n2: "snd s2 = snd s1 @ n2" and
      r2: "\<And>rest pre err. mergeSortWithCmp ?r askPreference (fed (answers_of n2) rest pre err)
         = Inr (right, \<lparr>stdin = rest, stdout = pre @ prompts_of n2, stderr = err\<rparr>)"
      by blast
    from merge_lists_replay [OF refl m] obtain n3 where
      n3: "snd sl' = snd s2 @ n3" and
      r3: "\<And>rest pre err. merge_lists askPreference left right (fed (answers_of n3) rest pre err)
         = Inr (out, \<lparr>stdin = rest, stdout = pre @ prompts_of n3, stderr = err\<rparr>)"
      by blast
    have "mergeSortWithCmp items askPreference (fed (answers_of (n1 @ n2 @ n3)) rest pre err)
         = Inr (out, \<lparr>stdin = rest, stdout = pre @ prompts_of (n1 @ n2 @ n3), stderr = err\<rparr>)"
      for rest pre err
    proof -
      have a: "fed (answers_of (n1 @ n2 @ n3)) rest pre err
          = fed (answers_of n1) (answer_lines (answers_of n2) @ answer_lines (answers_of n3) @ rest) pre err"
        by (simp add: fed_def answers_of_def answer_lines_def)
      have b: "\<lparr>stdin = answer_lines (answers_of n2) @ answer_lines (answers_of n3) @ rest,
                stdout = pre @ prompts_of n1, stderr = err\<rparr>
          = fed (answers_of n2) (answer_lines (answers_of n3) @ rest) (pre @ prompts_of n1) err"
        by (simp add: fed_def)
      have c: "\<lparr>stdin = answer_lines (answers_of n3) @ rest,
                stdout = (pre @ prompts_of n1) @ prompts_of n2, stderr = err\<rparr>
          = fed (answers_of n3) rest ((pre @ prompts_of n1) @ prompts_of n2) err"
        by (simp add: fed_def)
      show ?thesis
        unfolding sort_unfold [OF big] a
        by (simp only: r1 b r2 c r3 sum.case prod.case) (simp add: prompts_of_def)
    qed
    with n1 n2 n3 show ?thesis
      by (intro exI [of _ "n1 @ n2 @ n3"]) simp
  qed
qed

text \<open>
  Counting calls. A merge of two non-empty lists makes at least one call and at most
  one less than the number of items; the sort of \<open>n\<close> items makes between \<open>n - 1\<close> and
  \<open>n * ceillog2 n\<close> calls.
\<close>

lemma answers_recorded: "answers cmp \<Longrightarrow> answers (recorded cmp)"
  unfolding answers_def recorded_def
proof (intro allI)
  fix a b and sl :: "'a \<times> (string \<times> string \<times> bool) list"
  assume "\<forall>a b s. \<exists>r s'. cmp a b s = Inr (r, s')"
  then obtain r s' where "cmp a b (fst sl) = Inr (r, s')"
    by blast
  then show "\<exists>r s'. (case cmp a b (fst sl) of Inl e \<Rightarrow> Inl e
      | Inr (r, s') \<Rightarrow> Inr (r, s', snd sl @ [(a, b, r)])) = Inr (r, s')"
    by simp
qed

lemma merge_lists_calls:
  assumes "c = recorded cmp" and "merge_lists c xs ys sl = Inr (out, sl')"
  shows "length (snd sl) \<le> length (snd sl')
    \<and> length (snd sl') \<le> length (snd sl) + (length xs + length ys - 1)
    \<and> (xs \<noteq> [] \<and> ys \<noteq> [] \<longrightarrow> length (snd sl) < length (snd sl'))"
  using assms
proof (induction c xs ys sl arbitrary: out sl' rule: merge_lists.induct)
  case (3 c x xs y ys sl)
  from 3(4) obtain p where c: "c x y sl = Inr p"
    by (cases "c x y sl") auto
  obtain r sl1 where p: "p = (r, sl1)" by (cases p)
  from c p 3(3) have log1: "length (snd sl1) = length (snd sl) + 1"
    by (auto simp: recorded_def split: sum.splits)
  let ?xs' = "if r then xs else x # xs" and ?ys' = "if r then y # ys else ys"
  from 3(4) c p obtain zs where rec: "merge_lists c ?xs' ?ys' sl1 = Inr (zs, sl')"
    by (cases r) (auto simp: emit_Inr_iff)
  have "length (snd sl1) \<le> length (snd sl')
    \<and> length (snd sl') \<le> length (snd sl1) + (length ?xs' + length ?ys' - 1)"
  proof (cases r)
    case True
    with 3(1) [OF c [unfolded p] refl _ 3(3)] rec show ?thesis by simp
  next
    case False
    with 3(2) [OF c [unfolded p] refl _ 3(3)] rec show ?thesis by simp
  qed
  moreover have "length ?xs' + length ?ys' = length xs + length ys + 1"
    by simp
  ultimately show ?case using log1 by simp
qed auto

lemma ceillog2_half: "1 < n \<Longrightarrow> ceillog2 n = Suc (ceillog2 (n - n div 2))"
proof -
  assume "1 < n"
  moreover have "(n + 1) div 2 = n - n div 2" by linarith
  ultimately show ?thesis
    using ceillog2_rec [of n] by simp
qed

lemma sort_calls:
  "mergeSortWithCmp items (recorded cmp) sl = Inr (out, sl') \<Longrightarrow>
   length (snd sl) + (length items - 1) \<le> length (snd sl')
   \<and> length (snd sl') \<le> length (snd sl) + length items * ceillog2 (length items)"
proof (induction "length items" arbitrary: items sl out sl' rule: less_induct)
  case less
  show ?case
  proof (cases "length items \<le> 1")
    case True
    with less.prems have "sl' = sl" by (simp add: sort_small)
    with True show ?thesis by simp
  next
    case False
    then have big: "1 < length items" by simp
    let ?n = "length items"
    let ?h = "?n div 2"
    let ?l = "take ?h items" and ?r = "drop ?h items"
    from big less.prems obtain left s1 right s2 where
      l: "mergeSortWithCmp ?l (recorded cmp) sl = Inr (left, s1)" and
      r: "mergeSortWithCmp ?r (recorded cmp) s1 = Inr (right, s2)" and
      m: "merge_lists (recorded cmp) left right s2 = Inr (out, sl')"
      by (rule sort_stepE)
    have len_l: "length left = ?h"
      using mset_eq_length [OF sort_mset [OF l]] by simp
    have len_r: "length right = ?n - ?h"
      using mset_eq_length [OF sort_mset [OF r]] by simp
    have h: "1 \<le> ?h" "?h \<le> ?n - ?h" "1 \<le> ?n - ?h"
      using big by simp_all
    from less.hyps [OF halves_shorter(1) [OF big] l] have
      c1: "length (snd sl) + (?h - 1) \<le> length (snd s1)"
        "length (snd s1) \<le> length (snd sl) + ?h * ceillog2 ?h"
      by simp_all
    from less.hyps [OF halves_shorter(2) [OF big] r] have
      c2: "length (snd s1) + (?n - ?h - 1) \<le> length (snd s2)"
        "length (snd s2) \<le> length (snd s1) + (?n - ?h) * ceillog2 (?n - ?h)"
      by simp_all
    from merge_lists_calls [OF refl m] len_l len_r h have
      c3: "length (snd s2) < length (snd sl')" "length (snd sl') \<le> length (snd s2) + (?n - 1)"
      by auto
    have lower: "length (snd sl) + (?n - 1) \<le> length (snd sl')"
      using c1(1) c2(1) c3(1) h by linarith
    obtain k where k: "ceillog2 (?n - ?h) = k" by simp
    have L: "ceillog2 ?n = Suc k"
      using ceillog2_half [OF big] k by simp
    have "ceillog2 ?h \<le> k"
      using ceillog2_mono [OF h(2)] k by simp
    then have "?h * ceillog2 ?h \<le> ?h * k"
      by simp
    moreover have "?h * k + (?n - ?h) * k = ?n * k"
      using h(2) by (simp add: add_mult_distrib [symmetric])
    moreover have "length (snd s2) \<le> length (snd s1) + (?n - ?h) * k"
      using c2(2) k by simp
    ultimately have "length (snd sl') \<le> length (snd sl) + ?n * k + (?n - 1)"
      using c1(2) c3(2) by linarith
    then have upper: "length (snd sl') \<le> length (snd sl) + ?n * ceillog2 ?n"
      unfolding L by simp
    from lower upper show ?thesis ..
  qed
qed


text \<open>
  A comparator without effects that is a strict total order: the merge of two ranked
  lists is ranked, the sort returns a ranked list, and a ranked list is determined by
  its items.
\<close>

lemma strict_total_orderD:
  assumes "strict_total_order p"
  shows "\<not> p a a" and "p a b \<Longrightarrow> p b c \<Longrightarrow> p a c" and "a \<noteq> b \<Longrightarrow> \<not> p a b \<Longrightarrow> p b a"
  using assms unfolding strict_total_order_def by blast+

lemma merge_lists_pure:
  assumes "strict_total_order p" and "c = pure_cmp p"
    and "merge_lists c xs ys s = Inr (zs, s')" and "ranked p xs" and "ranked p ys"
  shows "ranked p zs \<and> s' = s"
  using assms(2-)
proof (induction c xs ys s arbitrary: zs s' rule: merge_lists.induct)
  case (3 c x xs y ys s)
  note ord = strict_total_orderD [OF assms(1)]
  have c: "c x y s = Inr (p x y, s)"
    using 3(3) by (simp add: pure_cmp_def)
  from 3(5) have rx: "ranked p xs" "\<forall>z\<in>set xs. \<not> p z x"
    by (simp_all add: ranked_def)
  from 3(6) have ry: "ranked p ys" "\<forall>z\<in>set ys. \<not> p z y"
    by (simp_all add: ranked_def)
  show ?case
  proof (cases "p x y")
    case True
    with 3(4) c obtain ws where
      rec: "merge_lists c xs (y # ys) s = Inr (ws, s')" and zs: "zs = x # ws"
      by (auto simp: emit_Inr_iff)
    from 3(1) [OF c refl _ 3(3) rec rx(1) 3(6)] True have ws: "ranked p ws" "s' = s"
      by simp_all
    have "mset ws = mset (xs @ y # ys)"
      using merge_lists_mset [OF rec] by simp
    then have "set ws = set (xs @ y # ys)"
      by (rule mset_eq_setD)
    then have "set ws = set xs \<union> set (y # ys)"
      by simp
    moreover have "\<not> p y x"
      using True ord(1,2) by blast
    moreover have "\<not> p z x" if "z \<in> set ys" for z
      using that ry(2) True ord(2) by blast
    ultimately have "\<forall>z\<in>set ws. \<not> p z x"
      using rx(2) by auto
    with ws zs show ?thesis
      by (simp add: ranked_def)
  next
    case False
    with 3(4) c obtain ws where
      rec: "merge_lists c (x # xs) ys s = Inr (ws, s')" and zs: "zs = y # ws"
      by (auto simp: emit_Inr_iff)
    from 3(2) [OF c refl _ 3(3) rec 3(5) ry(1)] False have ws: "ranked p ws" "s' = s"
      by simp_all
    have "mset ws = mset ((x # xs) @ ys)"
      using merge_lists_mset [OF rec] by simp
    then have "set ws = set ((x # xs) @ ys)"
      by (rule mset_eq_setD)
    then have "set ws = set (x # xs) \<union> set ys"
      by simp
    moreover have "\<not> p z y" if "z \<in> set xs" for z
    proof
      assume "p z y"
      have "\<not> p z x" using that rx(2) by blast
      show False
      proof (cases "x = y")
        case True
        with \<open>p z y\<close> \<open>\<not> p z x\<close> show False by simp
      next
        case False
        with \<open>\<not> p x y\<close> have "p y x" using ord(3) by blast
        with \<open>p z y\<close> have "p z x" using ord(2) by blast
        with \<open>\<not> p z x\<close> show False ..
      qed
    qed
    ultimately have "\<forall>z\<in>set ws. \<not> p z y"
      using ry(2) False by auto
    with ws zs show ?thesis
      by (simp add: ranked_def)
  qed
qed auto

lemma ranked_short: "length xs \<le> 1 \<Longrightarrow> ranked p xs"
  by (cases xs) (auto simp: ranked_def)

lemma sort_pure:
  assumes "strict_total_order p"
  shows "\<exists>out. mergeSortWithCmp items (pure_cmp p :: ('s, 'e) comparator) s = Inr (out, s)
    \<and> ranked p out"
proof (induction "length items" arbitrary: items rule: less_induct)
  case less
  let ?c = "pure_cmp p :: ('s, 'e) comparator"
  show ?case
  proof (cases "length items \<le> 1")
    case True
    then show ?thesis by (simp add: sort_small ranked_short)
  next
    case False
    then have big: "1 < length items" by simp
    from less.hyps [OF halves_shorter(1) [OF big]] obtain left where
      l: "mergeSortWithCmp (take (length items div 2) items) ?c s = Inr (left, s)"
        "ranked p left"
      by blast
    from less.hyps [OF halves_shorter(2) [OF big]] obtain right where
      r: "mergeSortWithCmp (drop (length items div 2) items) ?c s = Inr (right, s)"
        "ranked p right"
      by blast
    have "answers ?c"
      by (rule answers_pure)
    from merge_lists_returns [OF this] obtain out s' where
      m: "merge_lists ?c left right s = Inr (out, s')"
      by blast
    from merge_lists_pure [OF assms refl m l(2) r(2)] have "ranked p out" "s' = s"
      by simp_all
    with m l(1) r(1) show ?thesis
      unfolding sort_unfold [OF big] by simp
  qed
qed

lemma filter_eq_replicate: "filter (\<lambda>x. x = k) xs = replicate (count (mset xs) k) k"
  by (induction xs) auto

lemma tied_with_total:
  assumes "strict_total_order p"
  shows "tied_with p k xs = replicate (count (mset xs) k) k"
proof -
  have "(\<not> p x k \<and> \<not> p k x) = (x = k)" for x
    using strict_total_orderD [OF assms] by blast
  then show ?thesis
    by (simp add: tied_with_def filter_eq_replicate)
qed

lemma ranked_unique:
  assumes "strict_total_order p"
  shows "ranked p xs \<Longrightarrow> ranked p ys \<Longrightarrow> mset xs = mset ys \<Longrightarrow> xs = ys"
proof (induction xs arbitrary: ys)
  case Nil
  then show ?case by simp
next
  case (Cons x xs)
  from Cons.prems(3) obtain y ys' where ys: "ys = y # ys'"
    by (cases ys) auto
  have "x = y"
  proof (rule ccontr)
    assume ne: "x \<noteq> y"
    have "x \<in> set ys" "y \<in> set (x # xs)"
      using mset_eq_setD [OF Cons.prems(3)] ys by auto
    with ne have "x \<in> set ys'" "y \<in> set xs"
      using ys by auto
    with Cons.prems(1,2) ys have "\<not> p x y" "\<not> p y x"
      by (auto simp: ranked_def)
    with ne strict_total_orderD(3) [OF assms] show False by blast
  qed
  moreover from this Cons.prems ys have "xs = ys'"
    by (intro Cons.IH) (auto simp: ranked_def)
  ultimately show ?case using ys by simp
qed


text \<open>
  On a tie the comparator says false and the merge emits the right item first. For a
  comparator that leaves different items tied (here: compare the first letter only)
  the tied items therefore change their order; a strict total order has no such ties.
\<close>

lemma tie_emits_right_item_first:
  "mergeSortWithCmp [''a1'', ''a2''] (pure_cmp (\<lambda>a b. hd a < hd b)) ()
     = (Inr ([''a2'', ''a1''], ()) :: unit + string list \<times> unit)"
  by (simp add: mergeSortWithCmp.simps mergeWithCmp_lists pure_cmp_def)

lemma alphabetical: "strict_total_order (\<lambda>a b. a < b)"
  by (auto simp: strict_total_order_def)

text \<open>
  Trimming and lower-casing on ASCII input: white space around a word that starts and
  ends with a plain byte is removed, and an ASCII word is lower-cased byte by byte.
\<close>

lemma whiteSpace_first_bytes:
  "\<forall>u\<in>set whiteSpace. u \<noteq> [] \<and> (hd u \<in> set asciiSpace \<or> 128 \<le> (of_char (hd u) :: nat))"
  by (simp add: whiteSpace_def asciiSpace_def)

lemma whiteSpace_last_bytes:
  "\<forall>u\<in>set whiteSpace. u \<noteq> [] \<and> (last u \<in> set asciiSpace \<or> 128 \<le> (of_char (last u) :: nat))"
  by (simp add: whiteSpace_def asciiSpace_def)

lemma plain_first:
  assumes "plain c"
  shows "find (\<lambda>u. u \<noteq> [] \<and> prefix u (c # s)) whiteSpace = None"
proof -
  have "\<not> (u \<noteq> [] \<and> prefix u (c # s))" if "u \<in> set whiteSpace" for u
  proof
    assume "u \<noteq> [] \<and> prefix u (c # s)"
    then have "hd u = c"
      by (cases u) auto
    with whiteSpace_first_bytes that assms show False
      by (auto simp: plain_def)
  qed
  then show ?thesis
    by (simp add: find_None_iff)
qed

lemma plain_last:
  assumes "plain c"
  shows "find (\<lambda>u. u \<noteq> [] \<and> prefix u (c # s)) (map rev whiteSpace) = None"
proof -
  have "\<not> (rev u \<noteq> [] \<and> prefix (rev u) (c # s))" if "u \<in> set whiteSpace" for u
  proof
    assume a: "rev u \<noteq> [] \<and> prefix (rev u) (c # s)"
    then have "hd (rev u) = c"
      by (cases "rev u") auto
    with a have "last u = c"
      by (simp add: hd_rev)
    with whiteSpace_last_bytes that assms show False
      by (auto simp: plain_def)
  qed
  then show ?thesis
    by (auto simp: find_None_iff)
qed

lemma space_cases:
  assumes "c \<in> set asciiSpace"
  shows "c = CHR 0x09 \<or> c = CHR 0x0A \<or> c = CHR 0x0B \<or> c = CHR 0x0C \<or> c = CHR 0x0D \<or> c = CHR 0x20"
  using assms by (simp add: asciiSpace_def)

lemma space_first:
  assumes "c \<in> set asciiSpace"
  shows "find (\<lambda>u. u \<noteq> [] \<and> prefix u (c # s)) whiteSpace = Some [c]"
  using space_cases [OF assms]
  by (elim disjE) (simp_all add: whiteSpace_def asciiSpace_def)

lemma space_last:
  assumes "c \<in> set asciiSpace"
  shows "find (\<lambda>u. u \<noteq> [] \<and> prefix u (c # s)) (map rev whiteSpace) = Some [c]"
  using space_cases [OF assms]
  by (elim disjE) (simp_all add: whiteSpace_def asciiSpace_def)

lemma trimLeft_spaces:
  assumes "set ws \<subseteq> set asciiSpace" and "v \<noteq> []" and "plain (hd v)"
  shows "trimLeft whiteSpace (ws @ v) = v"
  using assms(1)
proof (induction ws)
  case Nil
  obtain c v' where v: "v = c # v'" using assms(2) by (cases v) auto
  with assms(3) have "plain c" by simp
  from plain_first [OF this] show ?case
    by (subst trimLeft.simps) (simp add: v)
next
  case (Cons c ws)
  then have "c \<in> set asciiSpace" by simp
  from space_first [OF this] Cons show ?case
    by (subst trimLeft.simps) simp
qed

lemma trimRight_spaces:
  assumes "set ws \<subseteq> set asciiSpace" and "v \<noteq> []" and "plain (hd v)"
  shows "trimLeft (map rev whiteSpace) (ws @ v) = v"
  using assms(1)
proof (induction ws)
  case Nil
  obtain c v' where v: "v = c # v'" using assms(2) by (cases v) auto
  with assms(3) have "plain c" by simp
  from plain_last [OF this] show ?case
    by (subst trimLeft.simps) (simp add: v)
next
  case (Cons c ws)
  then have "c \<in> set asciiSpace" by simp
  from space_last [OF this] Cons show ?case
    by (subst trimLeft.simps) simp
qed

lemma TrimSpace_spaces:
  assumes "set ws \<subseteq> set asciiSpace" and "set ws' \<subseteq> set asciiSpace"
    and "v \<noteq> []" and "plain (hd v)" and "plain (last v)"
  shows "TrimSpace (ws @ v @ ws') = v"
proof -
  have "trimLeft whiteSpace (ws @ v @ ws') = v @ ws'"
    using trimLeft_spaces [OF assms(1), of "v @ ws'"] assms(3,4) by simp
  moreover have "trimLeft (map rev whiteSpace) (rev ws' @ rev v) = rev v"
    using trimRight_spaces [of "rev ws'" "rev v"] assms(2,3,5) by (simp add: hd_rev)
  ultimately show ?thesis
    by (simp add: TrimSpace_def)
qed

lemma ToLower_ascii:
  assumes "\<forall>c\<in>set v. of_char c < (128::nat)"
  shows "ToLower v = map toLowerByte v"
  using assms
proof (induction v)
  case Nil
  then show ?case by simp
next
  case (Cons c v)
  then have "of_char c < (128::nat)" by simp
  then have "c \<noteq> CHR 0xC4" "c \<noteq> CHR 0xE2" by auto
  with Cons show ?case by simp
qed

text \<open>Reading lines, one turn of the loop of \<open>askPreference\<close>, and its retries.\<close>

lemma ReadString_line:
  "CHR ''\<newline>'' \<notin> set t \<Longrightarrow> ReadString (t @ ''\<newline>'' @ rest) = Some (t @ ''\<newline>'', rest)"
  by (induction t) auto

lemma ReadString_eof: "CHR ''\<newline>'' \<notin> set t \<Longrightarrow> ReadString t = None"
  by (induction t) auto

lemma one_line_read: "one_line l \<Longrightarrow> ReadString (l @ rest) = Some (l, rest)"
proof -
  assume l: "one_line l"
  then obtain t where t: "l = t @ ''\<newline>''" "CHR ''\<newline>'' \<notin> set t"
    unfolding one_line_def by (metis append_butlast_last_id)
  from ReadString_line [OF t(2), of rest] show ?thesis
    by (simp add: t(1))
qed

lemma world_update:
  "w\<lparr>stdin := i, stdout := out\<rparr> = \<lparr>stdin = i, stdout = out, stderr = stderr w\<rparr>"
  "w\<lparr>stdin := i, stdout := out, stderr := err\<rparr> = \<lparr>stdin = i, stdout = out, stderr = err\<rparr>"
  by (cases w; simp)+

lemma askPreference_step:
  assumes "ReadString (stdin w) = Some (l, rest)"
  shows "askPreference a b w =
    (if ToLower (TrimSpace l) = ''1'' \<or> ToLower (TrimSpace l) = ''a'' then
       Inr (True, \<lparr>stdin = rest, stdout = stdout w @ prompt a b, stderr = stderr w\<rparr>)
     else if ToLower (TrimSpace l) = ''2'' \<or> ToLower (TrimSpace l) = ''b'' then
       Inr (False, \<lparr>stdin = rest, stdout = stdout w @ prompt a b, stderr = stderr w\<rparr>)
     else if ToLower (TrimSpace l) = ''q'' \<or> ToLower (TrimSpace l) = ''quit''
         \<or> ToLower (TrimSpace l) = ''exit'' then
       Inl (Exit 0 \<lparr>stdin = rest, stdout = stdout w @ prompt a b @ ''Quitting.\<newline>'',
                    stderr = stderr w\<rparr>)
     else
       askPreference a b
         \<lparr>stdin = rest, stdout = stdout w @ prompt a b @ invalid_notice @ ''\<newline>'',
          stderr = stderr w\<rparr>)"
  using assms by (subst askPreference.simps) (simp add: Print_def Println_def world_update)

lemma askPreference_eof:
  assumes "ReadString (stdin w) = None"
  shows "askPreference a b w =
    Inl (Exit 1 \<lparr>stdin = [], stdout = stdout w @ prompt a b,
                 stderr = stderr w @ ''read error: EOF\<newline>''\<rparr>)"
  using assms by (subst askPreference.simps) (simp add: Print_def world_update)

lemma askPreference_retries:
  assumes "\<forall>l\<in>set ls. one_line l \<and> \<not> recognised l"
  shows "askPreference a b \<lparr>stdin = concat ls @ rest, stdout = pre, stderr = err\<rparr>
    = askPreference a b
        \<lparr>stdin = rest,
         stdout = pre @ concat (replicate (length ls) (prompt a b @ invalid_notice @ ''\<newline>'')),
         stderr = err\<rparr>"
  using assms
proof (induction ls arbitrary: pre)
  case Nil
  then show ?case by simp
next
  case (Cons l ls)
  then have l: "one_line l" "\<not> recognised l" by simp_all
  have "ReadString (stdin \<lparr>stdin = concat (l # ls) @ rest, stdout = pre, stderr = err\<rparr>)
      = Some (l, concat ls @ rest)"
    using one_line_read [OF l(1), of "concat ls @ rest"] by simp
  from askPreference_step [OF this, of a b] l(2)
  have "askPreference a b \<lparr>stdin = concat (l # ls) @ rest, stdout = pre, stderr = err\<rparr>
      = askPreference a b \<lparr>stdin = concat ls @ rest,
          stdout = pre @ prompt a b @ invalid_notice @ ''\<newline>'', stderr = err\<rparr>"
    by (simp add: recognised_def)
  also have "\<dots> = askPreference a b
        \<lparr>stdin = rest,
         stdout = (pre @ prompt a b @ invalid_notice @ ''\<newline>'')
           @ concat (replicate (length ls) (prompt a b @ invalid_notice @ ''\<newline>'')),
         stderr = err\<rparr>"
    using Cons by simp
  finally show ?case by simp
qed

text \<open>An abort of the merge or of the sort is the abort of a comparator call.\<close>

lemma merge_lists_abort:
  "merge_lists cmp xs ys s = Inl e \<Longrightarrow> \<exists>a b t. cmp a b t = Inl e"
proof (induction cmp xs ys s rule: merge_lists.induct)
  case (3 cmp x xs y ys s)
  show ?case
  proof (cases "cmp x y s")
    case (Inl e')
    with 3(3) show ?thesis by auto
  next
    case (Inr p)
    obtain r s1 where p: "p = (r, s1)" by (cases p)
    show ?thesis
    proof (cases r)
      case True
      with 3(3) Inr p have "merge_lists cmp xs (y # ys) s1 = Inl e"
        by (simp add: emit_Inl_iff)
      with 3(1) [OF Inr [unfolded p] refl] True show ?thesis by simp
    next
      case False
      with 3(3) Inr p have "merge_lists cmp (x # xs) ys s1 = Inl e"
        by (simp add: emit_Inl_iff)
      with 3(2) [OF Inr [unfolded p] refl] False show ?thesis by simp
    qed
  qed
qed simp_all

lemma sort_abort:
  "mergeSortWithCmp items cmp s = Inl e \<Longrightarrow> \<exists>a b t. cmp a b t = Inl e"
proof (induction "length items" arbitrary: items s rule: less_induct)
  case less
  show ?case
  proof (cases "length items \<le> 1")
    case True
    with less.prems show ?thesis by (simp add: sort_small)
  next
    case False
    then have big: "1 < length items" by simp
    show ?thesis
    proof (cases "mergeSortWithCmp (take (length items div 2) items) cmp s")
      case (Inl e')
      with less.prems have "e' = e"
        unfolding sort_unfold [OF big] by simp
      with Inl less.hyps [OF halves_shorter(1) [OF big]] show ?thesis by blast
    next
      case l: (Inr p)
      obtain left s1 where p: "p = (left, s1)" by (cases p)
      show ?thesis
      proof (cases "mergeSortWithCmp (drop (length items div 2) items) cmp s1")
        case (Inl e')
        with less.prems l p have "e' = e"
          unfolding sort_unfold [OF big] by simp
        with Inl less.hyps [OF halves_shorter(2) [OF big]] show ?thesis by blast
      next
        case r: (Inr q)
        obtain right s2 where q: "q = (right, s2)" by (cases q)
        from less.prems l p r q have "merge_lists cmp left right s2 = Inl e"
          unfolding sort_unfold [OF big] by simp
        then show ?thesis by (rule merge_lists_abort)
      qed
    qed
  qed
qed

lemma console_main_abort:
  "console_main items w = Inl e \<Longrightarrow> \<exists>a b t. askPreference a b t = Inl e"
  unfolding console_main_def interactiveMergeSort_generic
  by (auto split: sum.splits dest: sort_abort)

text \<open>
  The TUI step machine: a call of \<open>Update\<close> sends at most one value, on the pending
  channel, and clears the slot; over a run the channels replied to are, in order, a
  subsequence of the channels of the requests received.
\<close>

lemma Update_sends:
  assumes "Update m x = (m', c, sent)"
  shows "sent = [] \<or> (\<exists>ch r. req m = Some ch \<and> sent = [(ch, r)] \<and> req m' = None)"
proof (cases x)
  case (KeyMsg k)
  with assms show ?thesis
    by (cases "req m") (auto split: if_splits)
qed (use assms in auto)

lemma Update_idle_key:
  assumes "req m = None"
  shows "Update m (KeyMsg k) = (m, if k = ''q'' \<or> k = ''ctrl+c'' then Some Quit else None, [])"
  using assms by simp

lemma Update_pending:
  assumes "Update m x = (m', c, sent)"
  shows "map fst sent @ pending m' = pending m
    \<or> (\<exists>r. x = CmpRequestMsg r \<and> sent = [] \<and> req m' = Resp r)"
proof (cases x)
  case (KeyMsg k)
  with assms show ?thesis
    by (cases "req m") (auto simp: pending_def split: if_splits)
qed (use assms in \<open>auto simp: pending_def\<close>)

lemma request_chans_Cons:
  "request_chans (CmpRequestMsg r # xs) = (case Resp r of None \<Rightarrow> [] | Some ch \<Rightarrow> [ch]) @ request_chans xs"
  "\<forall>r. x \<noteq> CmpRequestMsg r \<Longrightarrow> request_chans (x # xs) = request_chans xs"
  by (cases "Resp r"; simp) (cases x; simp)

lemma run_replies:
  "run m xs = (m', sent) \<Longrightarrow> subseq (map fst sent) (pending m @ request_chans xs)"
proof (induction xs arbitrary: m m' sent)
  case Nil
  then show ?case by simp
next
  case (Cons x xs)
  obtain m1 c s1 where u: "Update m x = (m1, c, s1)"
    by (cases "Update m x") auto
  obtain s2 where r: "run m1 xs = (m', s2)" and sent: "sent = s1 @ s2"
    using Cons.prems u by (auto split: prod.splits)
  from Cons.IH [OF r] have ih: "subseq (map fst s2) (pending m1 @ request_chans xs)" .
  from Update_pending [OF u] show ?case
  proof
    assume a: "map fst s1 @ pending m1 = pending m"
    have "subseq (map fst s1 @ map fst s2) (map fst s1 @ pending m1 @ request_chans xs)"
      using ih by (simp add: list_emb_append_mono)
    moreover have "subseq (request_chans xs) (request_chans (x # xs))"
      by (cases x) (auto simp: list_emb_Cons split: option.splits)
    then have "subseq (pending m @ request_chans xs) (pending m @ request_chans (x # xs))"
      by (simp add: list_emb_append_mono)
    ultimately show ?thesis
      using a sent by (metis append.assoc map_append subseq_order.trans)
  next
    assume "\<exists>r. x = CmpRequestMsg r \<and> s1 = [] \<and> req m1 = Resp r"
    then obtain rq where x: "x = CmpRequestMsg rq" "s1 = []" "req m1 = Resp rq"
      by blast
    then have "pending m1 @ request_chans xs = request_chans (x # xs)"
      by (simp add: pending_def split: option.splits)
    with ih have "subseq (map fst s2) (request_chans (x # xs))"
      by simp
    then have "subseq (map fst s2) (pending m @ request_chans (x # xs))"
      by (rule list_emb_append2)
    with x sent show ?thesis by simp
  qed
qed

lemma pending_initial: "pending (initialModel ch) = []"
  by (simp add: pending_def initialModel_def)

section \<open>The claims\<close>

text \<open>
  C1. Whatever the comparator answers, a ranking that the sort returns is a permutation
  of the input: the same multiset of items, hence the same length and the same set;
  this holds for \<open>mergeSortWithCmp\<close> with any comparator and for
  \<open>interactiveMergeSort\<close>. A comparator that answers every call makes
  \<open>mergeSortWithCmp\<close> return.
\<close>

theorem sort_output_is_permutation:
  "(mergeSortWithCmp items cmp s = Inr (out, s') \<longrightarrow>
      mset out = mset items \<and> length out = length items \<and> set out = set items)
   \<and> (interactiveMergeSort items w = Inr (out', w') \<longrightarrow>
      mset out' = mset items \<and> length out' = length items \<and> set out' = set items)
   \<and> (answers cmp \<longrightarrow> (\<exists>zs t. mergeSortWithCmp items cmp s = Inr (zs, t)))"
proof (intro conjI impI)
  assume a: "mergeSortWithCmp items cmp s = Inr (out, s')"
  show "mset out = mset items" by (rule sort_mset [OF a])
  then show "length out = length items" by (rule mset_eq_length)
  show "set out = set items" using sort_mset [OF a] by (rule mset_eq_setD)
next
  assume "interactiveMergeSort items w = Inr (out', w')"
  then have a: "mergeSortWithCmp items askPreference w = Inr (out', w')"
    by (simp only: interactiveMergeSort_generic)
  show "mset out' = mset items" by (rule sort_mset [OF a])
  then show "length out' = length items" by (rule mset_eq_length)
  show "set out' = set items" using sort_mset [OF a] by (rule mset_eq_setD)
next
  assume "answers cmp"
  then show "\<exists>zs t. mergeSortWithCmp items cmp s = Inr (zs, t)" by (rule sort_returns)
qed

theorem sort_output_is_permutation_witness:
  "mergeSortWithCmp [''X'', ''Y'', ''Z''] (pure_cmp (\<lambda>a b. a = ''Y'')) ()
      = (Inr ([''Y'', ''Z'', ''X''], ()) :: unit + string list \<times> unit)
   \<and> mset [''Y'', ''Z'', ''X''] = mset [''X'', ''Y'', ''Z'']
   \<and> interactiveMergeSort [''X'', ''Y'', ''Z'']
        \<lparr>stdin = ''2\<newline> B \<newline>1\<newline>'', stdout = [], stderr = []\<rparr>
      = Inr ([''Z'', ''X'', ''Y''],
          \<lparr>stdin = [], stdout = prompt ''Y'' ''Z'' @ prompt ''X'' ''Z'' @ prompt ''X'' ''Y'',
           stderr = []\<rparr>)
   \<and> mset [''Z'', ''X'', ''Y''] = mset [''X'', ''Y'', ''Z'']
   \<and> answers (pure_cmp (\<lambda>a b. a = ''Y'') :: (unit, unit) comparator)
   \<and> (\<exists>zs t. mergeSortWithCmp [''X'', ''Y'', ''Z''] (pure_cmp (\<lambda>a b. a = ''Y'')) ()
        = (Inr (zs, t) :: unit + string list \<times> unit))"
proof -
  let ?cmp = "pure_cmp (\<lambda>a b. a = ''Y'') :: (unit, unit) comparator"
  let ?w = "\<lparr>stdin = ''2\<newline> B \<newline>1\<newline>'', stdout = [], stderr = []\<rparr>"
  let ?w' = "\<lparr>stdin = [], stdout = prompt ''Y'' ''Z'' @ prompt ''X'' ''Z'' @ prompt ''X'' ''Y'',
    stderr = []\<rparr>"
  have generic: "mergeSortWithCmp [''X'', ''Y'', ''Z''] ?cmp () = Inr ([''Y'', ''Z'', ''X''], ())"
    by (simp add: mergeSortWithCmp.simps mergeWithCmp_lists pure_cmp_def)
  have console: "interactiveMergeSort [''X'', ''Y'', ''Z''] ?w = Inr ([''Z'', ''X'', ''Y''], ?w')"
    by (simp add: interactiveMergeSort_generic mergeSortWithCmp.simps mergeWithCmp_lists
        console_eval)
  have total: "answers ?cmp"
    by (rule answers_pure)
  show ?thesis
    using sort_output_is_permutation
      [of "[''X'', ''Y'', ''Z'']" ?cmp "()" "[''Y'', ''Z'', ''X'']" "()" ?w "[''Z'', ''X'', ''Y'']" ?w']
      generic console total
    by simp
qed

text \<open>
  C2. For a comparator without effects that is a strict total order, the sort returns
  and its ranking is ordered most preferred first: no item is strictly preferred to an
  item placed before it. The items the order does not distinguish from any given item
  appear in the ranking in the order they had in the input. (A strict total order
  distinguishes every two different strings, so these are copies of one string.)
\<close>

theorem sort_is_ranked_and_stable:
  "strict_total_order p \<longrightarrow>
     (\<exists>out. mergeSortWithCmp items (pure_cmp p :: ('s, 'e) comparator) s = Inr (out, s)
        \<and> ranked p out
        \<and> (\<forall>k. tied_with p k out = tied_with p k items))"
proof
  assume ord: "strict_total_order p"
  let ?c = "pure_cmp p :: ('s, 'e) comparator"
  have "\<exists>out. mergeSortWithCmp items ?c s = Inr (out, s) \<and> ranked p out"
    by (rule sort_pure [OF ord])
  then obtain out where
    out: "mergeSortWithCmp items ?c s = Inr (out, s)" and ranked: "ranked p out"
    by (elim exE conjE)
  have "mset out = mset items"
    by (rule sort_mset [OF out])
  then have tied: "\<forall>k. tied_with p k out = tied_with p k items"
    by (simp only: tied_with_total [OF ord]) simp
  show "\<exists>out. mergeSortWithCmp items ?c s = Inr (out, s)
        \<and> ranked p out \<and> (\<forall>k. tied_with p k out = tied_with p k items)"
    by (rule exI [of _ out]) (intro conjI out ranked tied)
qed


theorem sort_is_ranked_and_stable_witness:
  "strict_total_order (\<lambda>a b. a < b)
   \<and> mergeSortWithCmp [''Cherry'', ''Apple'', ''Banana'', ''Apple''] (pure_cmp (\<lambda>a b. a < b)) ()
      = (Inr ([''Apple'', ''Apple'', ''Banana'', ''Cherry''], ()) :: unit + string list \<times> unit)
   \<and> ranked (\<lambda>a b. a < b) [''Apple'', ''Apple'', ''Banana'', ''Cherry'']
   \<and> tied_with (\<lambda>a b. a < b) ''Apple'' [''Apple'', ''Apple'', ''Banana'', ''Cherry'']
      = tied_with (\<lambda>a b. a < b) ''Apple'' [''Cherry'', ''Apple'', ''Banana'', ''Apple'']"
proof -
  let ?cmp = "pure_cmp (\<lambda>a b. a < b) :: (unit, unit) comparator"
  let ?items = "[''Cherry'', ''Apple'', ''Banana'', ''Apple'']"
  let ?ranking = "[''Apple'', ''Apple'', ''Banana'', ''Cherry'']"
  have run: "mergeSortWithCmp ?items ?cmp () = Inr (?ranking, ())"
    by (simp add: mergeSortWithCmp.simps mergeWithCmp_lists pure_cmp_def)
  from sort_is_ranked_and_stable [of "\<lambda>a b. a < b" ?items "()", THEN mp, OF alphabetical]
  obtain out where
    out: "mergeSortWithCmp ?items ?cmp () = Inr (out, ())" and
    ranked: "ranked (\<lambda>a b. a < b) out" and
    tied: "\<forall>k. tied_with (\<lambda>a b. a < b) k out = tied_with (\<lambda>a b. a < b) k ?items"
    by (elim exE conjE)
  from out run have "out = ?ranking"
    by simp
  with ranked tied [rule_format, of "''Apple''"] run alphabetical show ?thesis
    by (intro conjI) simp_all
qed

text \<open>
  C3. For an input of \<open>n\<close> items and any comparator, a run of the sort that returns
  has called the comparator at least \<open>max 0 (n - 1)\<close> times and at most
  \<open>n * \<lceil>log\<^sub>2 n\<rceil>\<close> times (\<open>ceillog2 0 = 0\<close>). The calls are counted by \<open>recorded\<close>, which
  logs every call; a comparator that answers every call makes such a run exist.
\<close>

theorem number_of_comparisons:
  "(mergeSortWithCmp items (recorded cmp) (s, []) = Inr (ranking, (s', calls)) \<longrightarrow>
      max 0 (int (length items) - 1) \<le> int (length calls)
      \<and> length calls \<le> length items * ceillog2 (length items))
   \<and> (answers cmp \<longrightarrow>
        (\<exists>zs t cs. mergeSortWithCmp items (recorded cmp) (s, []) = Inr (zs, (t, cs))))"
proof (intro conjI impI)
  assume run: "mergeSortWithCmp items (recorded cmp) (s, []) = Inr (ranking, (s', calls))"
  from sort_calls [OF run] show "max 0 (int (length items) - 1) \<le> int (length calls)"
    by auto
  from sort_calls [OF run] show "length calls \<le> length items * ceillog2 (length items)"
    by auto
next
  assume "answers cmp"
  then have "answers (recorded cmp)"
    by (rule answers_recorded)
  then have "\<exists>zs st. mergeSortWithCmp items (recorded cmp) (s, []) = Inr (zs, st)"
    by (rule sort_returns)
  then show "\<exists>zs t cs. mergeSortWithCmp items (recorded cmp) (s, []) = Inr (zs, (t, cs))"
    by auto
qed

theorem number_of_comparisons_witness:
  "mergeSortWithCmp [''Apple'', ''Banana'', ''Cherry''] (recorded (pure_cmp (\<lambda>a b. a < b))) ((), [])
      = (Inr ([''Apple'', ''Banana'', ''Cherry''],
          ((), [(''Banana'', ''Cherry'', True), (''Apple'', ''Banana'', True)]))
         :: unit + string list \<times> unit \<times> (string \<times> string \<times> bool) list)
   \<and> max 0 (int (length [''Apple'', ''Banana'', ''Cherry'']) - 1) \<le> 2
   \<and> 2 \<le> length [''Apple'', ''Banana'', ''Cherry''] * ceillog2 (length [''Apple'', ''Banana'', ''Cherry''])
   \<and> answers (pure_cmp (\<lambda>a b. a < b) :: (unit, unit) comparator)"
proof -
  let ?cmp = "pure_cmp (\<lambda>a b. a < b) :: (unit, unit) comparator"
  have run: "mergeSortWithCmp [''Apple'', ''Banana'', ''Cherry''] (recorded ?cmp) ((), [])
      = Inr ([''Apple'', ''Banana'', ''Cherry''],
          ((), [(''Banana'', ''Cherry'', True), (''Apple'', ''Banana'', True)]))"
    by (simp add: mergeSortWithCmp.simps mergeWithCmp_lists pure_cmp_def recorded_def)
  have total: "answers ?cmp"
    by (rule answers_pure)
  from number_of_comparisons
      [of "[''Apple'', ''Banana'', ''Cherry'']" ?cmp "()" "[''Apple'', ''Banana'', ''Cherry'']" "()"
        "[(''Banana'', ''Cherry'', True), (''Apple'', ''Banana'', True)]",
       THEN conjunct1, rule_format, OF run]
  show ?thesis
    using run total by simp
qed

text \<open>
  C4. The engine is top-down merge sort. A sequence of two or more items is split at
  \<open>length items div 2\<close>, so the left half is never the longer one and is shorter by one
  for an odd length; both halves are sorted recursively, left first, and merged. The
  merge asks the comparator about the two front items, emits the left one on \<open>True\<close>
  and the right one on \<open>False\<close>, and goes on with what is left; when one half is
  used up it returns the other as it is, in the same state: no further call is made.
\<close>

theorem sort_is_top_down_merge_sort:
  "(1 < length items \<longrightarrow>
      mergeSortWithCmp items cmp s =
        (case mergeSortWithCmp (take (length items div 2) items) cmp s of
           Inl e \<Rightarrow> Inl e
         | Inr (left, s1) \<Rightarrow>
             (case mergeSortWithCmp (drop (length items div 2) items) cmp s1 of
                Inl e \<Rightarrow> Inl e
              | Inr (right, s2) \<Rightarrow> mergeWithCmp left right cmp s2))
      \<and> length (take (length items div 2) items) = length items div 2
      \<and> length (take (length items div 2) items) \<le> length (drop (length items div 2) items)
      \<and> (odd (length items) \<longrightarrow>
           length (drop (length items div 2) items)
             = length (take (length items div 2) items) + 1))
   \<and> mergeWithCmp (x # xs) (y # ys) cmp s =
        (case cmp x y s of
           Inl e \<Rightarrow> Inl e
         | Inr (True, s') \<Rightarrow> emit [x] (mergeWithCmp xs (y # ys) cmp s')
         | Inr (False, s') \<Rightarrow> emit [y] (mergeWithCmp (x # xs) ys cmp s'))
   \<and> mergeWithCmp [] right cmp s = Inr (right, s)
   \<and> mergeWithCmp left [] cmp s = Inr (left, s)"
proof (intro conjI impI)
  assume big: "1 < length items"
  show "mergeSortWithCmp items cmp s =
        (case mergeSortWithCmp (take (length items div 2) items) cmp s of
           Inl e \<Rightarrow> Inl e
         | Inr (left, s1) \<Rightarrow>
             (case mergeSortWithCmp (drop (length items div 2) items) cmp s1 of
                Inl e \<Rightarrow> Inl e
              | Inr (right, s2) \<Rightarrow> mergeWithCmp left right cmp s2))"
    using big by (subst mergeSortWithCmp.simps) simp
  show "length (take (length items div 2) items) = length items div 2"
    by simp
  show "length (take (length items div 2) items) \<le> length (drop (length items div 2) items)"
    by simp
  show "length (drop (length items div 2) items) = length (take (length items div 2) items) + 1"
    if "odd (length items)"
    using that by (auto elim!: oddE)
next
  show "mergeWithCmp (x # xs) (y # ys) cmp s =
        (case cmp x y s of
           Inl e \<Rightarrow> Inl e
         | Inr (True, s') \<Rightarrow> emit [x] (mergeWithCmp xs (y # ys) cmp s')
         | Inr (False, s') \<Rightarrow> emit [y] (mergeWithCmp (x # xs) ys cmp s'))"
    by (simp add: mergeWithCmp_lists split: sum.splits prod.splits bool.splits)
  show "mergeWithCmp [] right cmp s = Inr (right, s)"
    by (simp add: mergeWithCmp_lists)
  show "mergeWithCmp left [] cmp s = Inr (left, s)"
    by (simp add: mergeWithCmp_lists merge_lists_Nil2)
qed

theorem sort_is_top_down_merge_sort_witness:
  "1 < length [''X'', ''Y'', ''Z''] \<and> odd (length [''X'', ''Y'', ''Z''])
   \<and> mergeSortWithCmp [''X'', ''Y'', ''Z''] (pure_cmp (\<lambda>a b. a = ''Y'')) ()
      = (mergeWithCmp [''X''] [''Y'', ''Z''] (pure_cmp (\<lambda>a b. a = ''Y'')) ()
          :: unit + string list \<times> unit)
   \<and> length [''Y'', ''Z''] = length [''X''] + 1
   \<and> mergeWithCmp [''X''] [''Y'', ''Z''] (pure_cmp (\<lambda>a b. a = ''Y'')) ()
      = (emit [''Y''] (mergeWithCmp [''X''] [''Z''] (pure_cmp (\<lambda>a b. a = ''Y'')) ())
          :: unit + string list \<times> unit)"
proof -
  let ?cmp = "pure_cmp (\<lambda>a b. a = ''Y'') :: (unit, unit) comparator"
  have left: "mergeSortWithCmp [''X''] ?cmp () = Inr ([''X''], ())"
    by (simp add: sort_small)
  have right: "mergeSortWithCmp [''Y'', ''Z''] ?cmp () = Inr ([''Y'', ''Z''], ())"
    by (simp add: mergeSortWithCmp.simps mergeWithCmp_lists pure_cmp_def)
  show ?thesis
    using sort_is_top_down_merge_sort
      [of "[''X'', ''Y'', ''Z'']" ?cmp "()" "''X''" "[]" "''Y''" "[''Z'']" "[]" "[]"]
      left right
    by (simp add: pure_cmp_def)
qed

text \<open>
  C5. The console engine and the engine with a comparator are the same algorithm.
  \<open>interactiveMergeSort\<close> is \<open>mergeSortWithCmp\<close> with \<open>askPreference\<close> as the
  comparator: the same result and the same final console state, prompts included,
  from every state. And for every comparator: when \<open>mergeSortWithCmp\<close> returns after
  the calls in \<open>calls\<close>, the console sort fed the same answers, one per line, prints
  the prompts of exactly these requests in this order and returns the same ranking.
\<close>

theorem console_and_generic_sort_agree:
  "interactiveMergeSort items w = mergeSortWithCmp items askPreference w
   \<and> (mergeSortWithCmp items (recorded cmp) (s, []) = Inr (ranking, (s', calls)) \<longrightarrow>
        interactiveMergeSort items
            \<lparr>stdin = answer_lines (answers_of calls), stdout = [], stderr = []\<rparr>
          = Inr (ranking, \<lparr>stdin = [], stdout = prompts_of calls, stderr = []\<rparr>))"
proof (intro conjI impI)
  show "interactiveMergeSort items w = mergeSortWithCmp items askPreference w"
    by (rule interactiveMergeSort_generic)
next
  assume "mergeSortWithCmp items (recorded cmp) (s, []) = Inr (ranking, (s', calls))"
  from sort_replay [OF this] have
    "mergeSortWithCmp items askPreference (fed (answers_of calls) [] [] [])
       = Inr (ranking, \<lparr>stdin = [], stdout = [] @ prompts_of calls, stderr = []\<rparr>)"
    by simp
  then show "interactiveMergeSort items
            \<lparr>stdin = answer_lines (answers_of calls), stdout = [], stderr = []\<rparr>
          = Inr (ranking, \<lparr>stdin = [], stdout = prompts_of calls, stderr = []\<rparr>)"
    by (simp add: interactiveMergeSort_generic fed_def)
qed

theorem console_and_generic_sort_agree_witness:
  "mergeSortWithCmp [''X'', ''Y'', ''Z''] (recorded (pure_cmp (\<lambda>a b. a = ''Y''))) ((), [])
      = (Inr ([''Y'', ''Z'', ''X''],
          ((), [(''Y'', ''Z'', True), (''X'', ''Y'', False), (''X'', ''Z'', False)]))
         :: unit + string list \<times> unit \<times> (string \<times> string \<times> bool) list)
   \<and> interactiveMergeSort [''X'', ''Y'', ''Z'']
        \<lparr>stdin = ''1\<newline>2\<newline>2\<newline>'', stdout = [], stderr = []\<rparr>
      = Inr ([''Y'', ''Z'', ''X''],
          \<lparr>stdin = [], stdout = prompt ''Y'' ''Z'' @ prompt ''X'' ''Y'' @ prompt ''X'' ''Z'',
           stderr = []\<rparr>)"
proof -
  let ?cmp = "pure_cmp (\<lambda>a b. a = ''Y'') :: (unit, unit) comparator"
  have generic: "mergeSortWithCmp [''X'', ''Y'', ''Z''] (recorded ?cmp) ((), [])
      = Inr ([''Y'', ''Z'', ''X''],
          ((), [(''Y'', ''Z'', True), (''X'', ''Y'', False), (''X'', ''Z'', False)]))"
    by (simp add: mergeSortWithCmp.simps mergeWithCmp_lists pure_cmp_def recorded_def)
  from console_and_generic_sort_agree
      [of "[''X'', ''Y'', ''Z'']" "\<lparr>stdin = [], stdout = [], stderr = []\<rparr>" ?cmp "()"
        "[''Y'', ''Z'', ''X'']" "()"
        "[(''Y'', ''Z'', True), (''X'', ''Y'', False), (''X'', ''Z'', False)]",
       THEN conjunct2, rule_format, OF generic]
  show ?thesis
    using generic by (simp add: answers_of_def answer_lines_def prompts_of_def)
qed

text \<open>
  C6. The console oracle. \<open>ReadString\<close> hands out one line at a time, up to and
  including the first newline. ASCII white space around a word of plain bytes is
  trimmed and the word is lower-cased before it is compared. On the line read,
  \<open>askPreference\<close> returns true for \<open>1\<close> or \<open>a\<close> and false for \<open>2\<close> or \<open>b\<close>, having
  printed the prompt; for \<open>q\<close>, \<open>quit\<close> or \<open>exit\<close> it prints \<open>Quitting.\<close> and ends the
  process with status 0; for any other line it prints the notice and starts over on
  the rest of the input. Any number of unrecognised lines is skipped this way, each
  with one prompt and one notice. A line ends with a newline: when the input ends
  before one, the call reports the read error and ends the process with status 1. An
  exit of the console program during the sort is the exit of an \<open>askPreference\<close>
  call, with the process state of that moment: the ranking is not printed.
\<close>

theorem console_oracle:
  "(CHR ''\<newline>'' \<notin> set t \<longrightarrow> ReadString (t @ ''\<newline>'' @ rest) = Some (t @ ''\<newline>'', rest))
   \<and> (set ws \<subseteq> set asciiSpace \<and> set ws' \<subseteq> set asciiSpace \<and> v \<noteq> [] \<and> (\<forall>c\<in>set v. plain c) \<longrightarrow>
        ToLower (TrimSpace (ws @ v @ ws')) = map toLowerByte v)
   \<and> (ReadString (stdin w) = Some (l, rest') \<longrightarrow>
        askPreference a b w =
          (if ToLower (TrimSpace l) = ''1'' \<or> ToLower (TrimSpace l) = ''a'' then
             Inr (True, \<lparr>stdin = rest', stdout = stdout w @ prompt a b, stderr = stderr w\<rparr>)
           else if ToLower (TrimSpace l) = ''2'' \<or> ToLower (TrimSpace l) = ''b'' then
             Inr (False, \<lparr>stdin = rest', stdout = stdout w @ prompt a b, stderr = stderr w\<rparr>)
           else if ToLower (TrimSpace l) = ''q'' \<or> ToLower (TrimSpace l) = ''quit''
               \<or> ToLower (TrimSpace l) = ''exit'' then
             Inl (Exit 0 \<lparr>stdin = rest', stdout = stdout w @ prompt a b @ ''Quitting.\<newline>'',
                          stderr = stderr w\<rparr>)
           else
             askPreference a b
               \<lparr>stdin = rest', stdout = stdout w @ prompt a b @ invalid_notice @ ''\<newline>'',
                stderr = stderr w\<rparr>))
   \<and> ((\<forall>l\<in>set ls. one_line l \<and> \<not> recognised l) \<longrightarrow>
        askPreference a b \<lparr>stdin = concat ls @ later, stdout = pre, stderr = err\<rparr>
          = askPreference a b
              \<lparr>stdin = later,
               stdout = pre @ concat (replicate (length ls) (prompt a b @ invalid_notice @ ''\<newline>'')),
               stderr = err\<rparr>)
   \<and> (CHR ''\<newline>'' \<notin> set (stdin w1) \<longrightarrow>
        askPreference a b w1 =
          Inl (Exit 1 \<lparr>stdin = [], stdout = stdout w1 @ prompt a b,
                       stderr = stderr w1 @ ''read error: EOF\<newline>''\<rparr>))
   \<and> (console_main items w0 = Inl e \<longrightarrow> (\<exists>x y u. askPreference x y u = Inl e))"
proof (intro conjI impI)
  assume "CHR ''\<newline>'' \<notin> set t"
  then show "ReadString (t @ ''\<newline>'' @ rest) = Some (t @ ''\<newline>'', rest)"
    by (rule ReadString_line)
next
  assume "CHR ''\<newline>'' \<notin> set (stdin w1)"
  then have "ReadString (stdin w1) = None"
    by (rule ReadString_eof)
  then show "askPreference a b w1 =
          Inl (Exit 1 \<lparr>stdin = [], stdout = stdout w1 @ prompt a b,
                       stderr = stderr w1 @ ''read error: EOF\<newline>''\<rparr>)"
    by (rule askPreference_eof)
next
  assume a: "set ws \<subseteq> set asciiSpace \<and> set ws' \<subseteq> set asciiSpace \<and> v \<noteq> [] \<and> (\<forall>c\<in>set v. plain c)"
  then have "plain (hd v)" "plain (last v)"
    by simp_all
  with a have "TrimSpace (ws @ v @ ws') = v"
    by (intro TrimSpace_spaces) simp_all
  moreover from a have "ToLower v = map toLowerByte v"
    by (intro ToLower_ascii) (simp add: plain_def)
  ultimately show "ToLower (TrimSpace (ws @ v @ ws')) = map toLowerByte v"
    by simp
next
  assume "ReadString (stdin w) = Some (l, rest')"
  then show "askPreference a b w =
          (if ToLower (TrimSpace l) = ''1'' \<or> ToLower (TrimSpace l) = ''a'' then
             Inr (True, \<lparr>stdin = rest', stdout = stdout w @ prompt a b, stderr = stderr w\<rparr>)
           else if ToLower (TrimSpace l) = ''2'' \<or> ToLower (TrimSpace l) = ''b'' then
             Inr (False, \<lparr>stdin = rest', stdout = stdout w @ prompt a b, stderr = stderr w\<rparr>)
           else if ToLower (TrimSpace l) = ''q'' \<or> ToLower (TrimSpace l) = ''quit''
               \<or> ToLower (TrimSpace l) = ''exit'' then
             Inl (Exit 0 \<lparr>stdin = rest', stdout = stdout w @ prompt a b @ ''Quitting.\<newline>'',
                          stderr = stderr w\<rparr>)
           else
             askPreference a b
               \<lparr>stdin = rest', stdout = stdout w @ prompt a b @ invalid_notice @ ''\<newline>'',
                stderr = stderr w\<rparr>)"
    by (rule askPreference_step)
next
  assume "\<forall>l\<in>set ls. one_line l \<and> \<not> recognised l"
  then show "askPreference a b \<lparr>stdin = concat ls @ later, stdout = pre, stderr = err\<rparr>
          = askPreference a b
              \<lparr>stdin = later,
               stdout = pre @ concat (replicate (length ls) (prompt a b @ invalid_notice @ ''\<newline>'')),
               stderr = err\<rparr>"
    by (rule askPreference_retries)
next
  assume "console_main items w0 = Inl e"
  then show "\<exists>x y u. askPreference x y u = Inl e"
    by (rule console_main_abort)
qed

theorem console_oracle_witness:
  "CHR ''\<newline>'' \<notin> set ''banana''
   \<and> ReadString (''banana\<newline>2\<newline>'') = Some (''banana\<newline>'', ''2\<newline>'')
   \<and> set [CHR 0x20, CHR 0x09] \<subseteq> set asciiSpace \<and> set [CHR 0x0D, CHR 0x0A] \<subseteq> set asciiSpace
   \<and> list_all plain ''QuIt''
   \<and> ToLower (TrimSpace ([CHR 0x20, CHR 0x09] @ ''QuIt'' @ [CHR 0x0D, CHR 0x0A])) = ''quit''
   \<and> askPreference ''X'' ''Y'' \<lparr>stdin = '' QuIt \<newline>2\<newline>'', stdout = [], stderr = []\<rparr>
      = Inl (Exit 0 \<lparr>stdin = ''2\<newline>'', stdout = prompt ''X'' ''Y'' @ ''Quitting.\<newline>'', stderr = []\<rparr>)
   \<and> one_line ''banana\<newline>'' \<and> \<not> recognised ''banana\<newline>''
   \<and> one_line ''3\<newline>'' \<and> \<not> recognised ''3\<newline>''
   \<and> askPreference ''X'' ''Y'' \<lparr>stdin = ''banana\<newline>3\<newline>B\<newline>'', stdout = [], stderr = []\<rparr>
      = Inr (False, \<lparr>stdin = [],
          stdout = prompt ''X'' ''Y'' @ invalid_notice @ ''\<newline>''
            @ prompt ''X'' ''Y'' @ invalid_notice @ ''\<newline>'' @ prompt ''X'' ''Y'',
          stderr = []\<rparr>)
   \<and> askPreference ''X'' ''Y'' \<lparr>stdin = ''1'', stdout = [], stderr = []\<rparr>
      = Inl (Exit 1 \<lparr>stdin = [], stdout = prompt ''X'' ''Y'', stderr = ''read error: EOF\<newline>''\<rparr>)
   \<and> console_main [''X'', ''Y''] \<lparr>stdin = ''exit\<newline>'', stdout = [], stderr = []\<rparr>
      = Inl (Exit 0 \<lparr>stdin = [],
          stdout = ''\<newline>Got 2 items. We'll ask pairwise questions to rank them.\<newline>''
            @ ''On each prompt enter 1 or 2 to choose the item you prefer. Enter q to quit.\<newline>\<newline>''
            @ prompt ''X'' ''Y'' @ ''Quitting.\<newline>'',
          stderr = []\<rparr>)
   \<and> (\<exists>x y u. askPreference x y u
        = Inl (Exit 0 \<lparr>stdin = [],
          stdout = ''\<newline>Got 2 items. We'll ask pairwise questions to rank them.\<newline>''
            @ ''On each prompt enter 1 or 2 to choose the item you prefer. Enter q to quit.\<newline>\<newline>''
            @ prompt ''X'' ''Y'' @ ''Quitting.\<newline>'',
          stderr = []\<rparr>))"
proof -
  let ?w = "\<lparr>stdin = '' QuIt \<newline>2\<newline>'', stdout = [], stderr = []\<rparr>"
  let ?final = "\<lparr>stdin = [],
          stdout = ''\<newline>Got 2 items. We'll ask pairwise questions to rank them.\<newline>''
            @ ''On each prompt enter 1 or 2 to choose the item you prefer. Enter q to quit.\<newline>\<newline>''
            @ prompt ''X'' ''Y'' @ ''Quitting.\<newline>'',
          stderr = []\<rparr>"
  note inst = console_oracle
    [of "''banana''" "''2\<newline>''" "[CHR 0x20, CHR 0x09]" "[CHR 0x0D, CHR 0x0A]" "''QuIt''"
      ?w "'' QuIt \<newline>''" "''2\<newline>''" "''X''" "''Y''"
      "[''banana\<newline>'', ''3\<newline>'']" "''B\<newline>''" "[]" "[]"
      "\<lparr>stdin = ''1'', stdout = [], stderr = []\<rparr>"
      "[''X'', ''Y'']" "\<lparr>stdin = ''exit\<newline>'', stdout = [], stderr = []\<rparr>" "Exit 0 ?final"]
  have no_newline: "CHR ''\<newline>'' \<notin> set ''banana''"
    by simp
  have spaces: "set [CHR 0x20, CHR 0x09] \<subseteq> set asciiSpace \<and> set [CHR 0x0D, CHR 0x0A] \<subseteq> set asciiSpace
      \<and> ''QuIt'' \<noteq> [] \<and> (\<forall>c\<in>set ''QuIt''. plain c)"
    by (simp add: asciiSpace_def plain_def)
  have read: "ReadString (stdin ?w) = Some ('' QuIt \<newline>'', ''2\<newline>'')"
    by simp
  have key: "ToLower (TrimSpace '' QuIt \<newline>'') = ''quit''"
    by (simp add: console_eval)
  have lines: "\<forall>l\<in>set [''banana\<newline>'', ''3\<newline>'']. one_line l \<and> \<not> recognised l"
    by (simp add: one_line_def recognised_def console_eval)
  have last_line: "askPreference ''X'' ''Y''
      \<lparr>stdin = ''B\<newline>'',
       stdout = [] @ concat (replicate (length [''banana\<newline>'', ''3\<newline>''])
         (prompt ''X'' ''Y'' @ invalid_notice @ ''\<newline>'')),
       stderr = []\<rparr>
      = Inr (False, \<lparr>stdin = [],
          stdout = prompt ''X'' ''Y'' @ invalid_notice @ ''\<newline>''
            @ prompt ''X'' ''Y'' @ invalid_notice @ ''\<newline>'' @ prompt ''X'' ''Y'',
          stderr = []\<rparr>)"
    by (simp add: console_eval)
  have main: "console_main [''X'', ''Y''] \<lparr>stdin = ''exit\<newline>'', stdout = [], stderr = []\<rparr>
      = Inl (Exit 0 ?final)"
    by (simp add: console_main_def interactiveMergeSort_generic mergeSortWithCmp.simps
        mergeWithCmp_lists console_eval decimal.simps)
  from inst [THEN conjunct1, THEN mp, OF no_newline]
  have c1: "ReadString (''banana\<newline>2\<newline>'') = Some (''banana\<newline>'', ''2\<newline>'')"
    by simp
  from inst [THEN conjunct2, THEN conjunct1, THEN mp, OF spaces]
  have c2: "ToLower (TrimSpace ([CHR 0x20, CHR 0x09] @ ''QuIt'' @ [CHR 0x0D, CHR 0x0A])) = ''quit''"
    by (simp add: toLowerByte_def)
  from inst [THEN conjunct2, THEN conjunct2, THEN conjunct1, THEN mp, OF read]
  have c3: "askPreference ''X'' ''Y'' ?w
      = Inl (Exit 0 \<lparr>stdin = ''2\<newline>'', stdout = prompt ''X'' ''Y'' @ ''Quitting.\<newline>'', stderr = []\<rparr>)"
    by (simp add: key)
  from inst [THEN conjunct2, THEN conjunct2, THEN conjunct2, THEN conjunct1, THEN mp, OF lines]
  have c4: "askPreference ''X'' ''Y'' \<lparr>stdin = ''banana\<newline>3\<newline>B\<newline>'', stdout = [], stderr = []\<rparr>
      = Inr (False, \<lparr>stdin = [],
          stdout = prompt ''X'' ''Y'' @ invalid_notice @ ''\<newline>''
            @ prompt ''X'' ''Y'' @ invalid_notice @ ''\<newline>'' @ prompt ''X'' ''Y'',
          stderr = []\<rparr>)"
    unfolding last_line by simp
  have unterminated: "CHR ''\<newline>'' \<notin> set (stdin \<lparr>stdin = ''1'', stdout = [], stderr = []\<rparr>)"
    by simp
  from inst [THEN conjunct2, THEN conjunct2, THEN conjunct2, THEN conjunct2, THEN conjunct1,
      THEN mp, OF unterminated]
  have c6: "askPreference ''X'' ''Y'' \<lparr>stdin = ''1'', stdout = [], stderr = []\<rparr>
      = Inl (Exit 1 \<lparr>stdin = [], stdout = prompt ''X'' ''Y'', stderr = ''read error: EOF\<newline>''\<rparr>)"
    by simp
  from inst [THEN conjunct2, THEN conjunct2, THEN conjunct2, THEN conjunct2, THEN conjunct2,
      THEN mp, OF main]
  have c5: "\<exists>x y u. askPreference x y u = Inl (Exit 0 ?final)" .
  from spaces have plain: "list_all plain ''QuIt''"
    by (simp add: list_all_iff)
  from lines have unrecognised:
    "one_line ''banana\<newline>'' \<and> \<not> recognised ''banana\<newline>''
      \<and> one_line ''3\<newline>'' \<and> \<not> recognised ''3\<newline>''"
    by simp
  from no_newline c1 spaces plain c2 c3 unrecognised c4 c6 main c5 show ?thesis
    by (intro conjI) simp_all
qed

text \<open>
  C7 (as amended). Fed the lines \<open>1\<close>, \<open>banana\<close>, \<open>2\<close> for a single comparison,
  \<open>askPreference\<close> resolves on the first line: it returns true (prefer A) after one
  prompt and leaves \<open>banana\<close> and \<open>2\<close> unread. Fed \<open>banana\<close>, \<open>2\<close>, it prints the
  notice, prompts a second time and returns false (prefer B) on the second line.
\<close>

theorem three_lines_for_one_comparison:
  "askPreference a b \<lparr>stdin = ''1\<newline>banana\<newline>2\<newline>'' @ rest, stdout = pre, stderr = err\<rparr>
     = Inr (True, \<lparr>stdin = ''banana\<newline>2\<newline>'' @ rest, stdout = pre @ prompt a b, stderr = err\<rparr>)
   \<and> askPreference a b \<lparr>stdin = ''banana\<newline>2\<newline>'' @ rest, stdout = pre, stderr = err\<rparr>
     = Inr (False,
         \<lparr>stdin = rest, stdout = pre @ prompt a b @ invalid_notice @ ''\<newline>'' @ prompt a b,
          stderr = err\<rparr>)"
proof
  let ?w = "\<lparr>stdin = ''1\<newline>banana\<newline>2\<newline>'' @ rest, stdout = pre, stderr = err\<rparr>"
  have read: "ReadString (stdin ?w) = Some (''1\<newline>'', ''banana\<newline>2\<newline>'' @ rest)"
    by simp
  have key: "ToLower (TrimSpace ''1\<newline>'') = ''1''"
    by (simp add: console_eval)
  show "askPreference a b ?w
     = Inr (True, \<lparr>stdin = ''banana\<newline>2\<newline>'' @ rest, stdout = pre @ prompt a b, stderr = err\<rparr>)"
    using askPreference_step [OF read, of a b] key by simp
next
  let ?w = "\<lparr>stdin = ''banana\<newline>2\<newline>'' @ rest, stdout = pre, stderr = err\<rparr>"
  let ?w' = "\<lparr>stdin = ''2\<newline>'' @ rest, stdout = stdout ?w @ prompt a b @ invalid_notice @ ''\<newline>'',
    stderr = stderr ?w\<rparr>"
  have read: "ReadString (stdin ?w) = Some (''banana\<newline>'', ''2\<newline>'' @ rest)"
    by simp
  have key: "ToLower (TrimSpace ''banana\<newline>'') = ''banana''"
    by (simp add: console_eval)
  have retry: "askPreference a b ?w = askPreference a b ?w'"
    using askPreference_step [OF read, of a b] key by simp
  have read': "ReadString (stdin ?w') = Some (''2\<newline>'', rest)"
    by simp
  have key': "ToLower (TrimSpace ''2\<newline>'') = ''2''"
    by (simp add: console_eval)
  have "askPreference a b ?w'
     = Inr (False,
         \<lparr>stdin = rest, stdout = pre @ prompt a b @ invalid_notice @ ''\<newline>'' @ prompt a b,
          stderr = err\<rparr>)"
    using askPreference_step [OF read', of a b] key' by simp
  with retry show "askPreference a b ?w
     = Inr (False,
         \<lparr>stdin = rest, stdout = pre @ prompt a b @ invalid_notice @ ''\<newline>'' @ prompt a b,
          stderr = err\<rparr>)"
    by simp
qed

text \<open>
  The claim as stated, that these three lines make the oracle prompt twice and return
  false on the third line, fails on the input itself: the call returns true and has
  read the first line only.
\<close>

theorem three_lines_for_one_comparison_counterexample:
  "askPreference ''A'' ''B'' \<lparr>stdin = ''1\<newline>banana\<newline>2\<newline>'', stdout = [], stderr = []\<rparr>
     = Inr (True, \<lparr>stdin = ''banana\<newline>2\<newline>'', stdout = prompt ''A'' ''B'', stderr = []\<rparr>)"
  by (simp add: console_eval)

text \<open>
  C8. In the step machine of the TUI model a reply is sent at most once per request.
  A call of \<open>Update\<close> sends nothing, or it sends one boolean on the channel that is
  pending and leaves the slot empty; with an empty slot a key press sends nothing and
  changes nothing. From \<open>initialModel\<close>, along any sequence of messages, the channels
  replied to form, in order, a subsequence of the reply channels of the requests
  received: there are no more replies than requests, and when the requests carry
  different channels, as the fresh channel made for every comparison ensures, no
  channel is written twice. The model has one slot, so at most one request is pending.
\<close>

theorem reply_sent_at_most_once:
  "(Update m x = (m', c, sent) \<longrightarrow>
      sent = [] \<or> (\<exists>ch r. req m = Some ch \<and> sent = [(ch, r)] \<and> req m' = None))
   \<and> (req m = None \<longrightarrow>
        Update m (KeyMsg k) = (m, if k = ''q'' \<or> k = ''ctrl+c'' then Some Quit else None, []))
   \<and> (run (initialModel ch0) xs = (m1, replies) \<longrightarrow>
        subseq (map fst replies) (request_chans xs)
        \<and> length replies \<le> length (request_chans xs)
        \<and> (distinct (request_chans xs) \<longrightarrow> distinct (map fst replies)))
   \<and> length (pending m) \<le> 1"
proof (intro conjI impI)
  assume "Update m x = (m', c, sent)"
  then show "sent = [] \<or> (\<exists>ch r. req m = Some ch \<and> sent = [(ch, r)] \<and> req m' = None)"
    by (rule Update_sends)
next
  assume "req m = None"
  then show "Update m (KeyMsg k) = (m, if k = ''q'' \<or> k = ''ctrl+c'' then Some Quit else None, [])"
    by (rule Update_idle_key)
next
  assume "run (initialModel ch0) xs = (m1, replies)"
  from run_replies [OF this] show sub: "subseq (map fst replies) (request_chans xs)"
    by (simp add: pending_initial)
  from list_emb_length [OF sub] show "length replies \<le> length (request_chans xs)"
    by simp
  from sub have "map fst replies \<in> set (subseqs (request_chans xs))"
    by (simp add: set_subseqs_eq)
  then show "distinct (map fst replies)" if "distinct (request_chans xs)"
    using that by (rule subseqs_distinctD)
next
  show "length (pending m) \<le> 1"
    by (simp add: pending_def split: option.splits)
qed

theorem reply_sent_at_most_once_witness:
  "Update ((initialModel 0)\<lparr>req := Some 5\<rparr>) (KeyMsg ''left'')
      = ((initialModel 0)\<lparr>req := None, status := ''Sent choice: left''\<rparr>, None, [(5, True)])
   \<and> req (initialModel 0) = None
   \<and> Update (initialModel 0) (KeyMsg ''right'') = (initialModel 0, None, [])
   \<and> run (initialModel 0)
        [KeyMsg ''left'', CmpRequestMsg (CompareRequest ''x'' ''y'' (Some 5)), KeyMsg ''left'',
         KeyMsg ''right'', CmpRequestMsg (CompareRequest ''y'' ''z'' (Some 6)), KeyMsg ''l'']
      = (\<lparr>compCh = 0, card_a = ''y'', card_b = ''z'', req = None,
           status = ''Sent choice: right''\<rparr>,
         [(5, True), (6, False)])
   \<and> distinct (request_chans
        [KeyMsg ''left'', CmpRequestMsg (CompareRequest ''x'' ''y'' (Some 5)), KeyMsg ''left'',
         KeyMsg ''right'', CmpRequestMsg (CompareRequest ''y'' ''z'' (Some 6)), KeyMsg ''l''])
   \<and> distinct (map fst [(5 :: chan, True), (6, False)])
   \<and> length [(5 :: chan, True), (6, False)] \<le> 2"
proof -
  let ?xs = "[KeyMsg ''left'', CmpRequestMsg (CompareRequest ''x'' ''y'' (Some 5)), KeyMsg ''left'',
         KeyMsg ''right'', CmpRequestMsg (CompareRequest ''y'' ''z'' (Some 6)), KeyMsg ''l'']"
  let ?m = "\<lparr>compCh = 0, card_a = ''y'', card_b = ''z'', req = None,
           status = ''Sent choice: right''\<rparr>"
  have step: "Update ((initialModel 0)\<lparr>req := Some 5\<rparr>) (KeyMsg ''left'')
      = ((initialModel 0)\<lparr>req := None, status := ''Sent choice: left''\<rparr>, None, [(5, True)])"
    by (simp add: initialModel_def)
  have idle: "req (initialModel 0) = None"
    by (simp add: initialModel_def)
  have whole: "run (initialModel 0) ?xs = (?m, [(5, True), (6, False)])"
    by (simp add: initialModel_def Init_def)
  have fresh: "distinct (request_chans ?xs)"
    by simp
  note inst = reply_sent_at_most_once
    [of "(initialModel 0)\<lparr>req := Some 5\<rparr>" "KeyMsg ''left''"
      "(initialModel 0)\<lparr>req := None, status := ''Sent choice: left''\<rparr>" None "[(5, True)]"
      _ 0 ?xs ?m "[(5, True), (6, False)]"]
  note inst' = reply_sent_at_most_once
    [of "initialModel 0" _ _ _ _ "''right''", THEN conjunct2, THEN conjunct1, THEN mp, OF idle]
  from inst [THEN conjunct1, THEN mp, OF step]
  have "[(5 :: chan, True)] = [] \<or> (\<exists>ch r. req ((initialModel 0)\<lparr>req := Some 5\<rparr>) = Some ch
      \<and> [(5 :: chan, True)] = [(ch, r)]
      \<and> req ((initialModel 0)\<lparr>req := None, status := ''Sent choice: left''\<rparr>) = None)" .
  from inst [THEN conjunct2, THEN conjunct2, THEN conjunct1, THEN mp, OF whole]
  have run: "length [(5 :: chan, True), (6, False)] \<le> length (request_chans ?xs)"
    "distinct (request_chans ?xs) \<longrightarrow> distinct (map fst [(5 :: chan, True), (6, False)])"
    by simp_all
  from run(2) [THEN mp, OF fresh] have "distinct (map fst [(5 :: chan, True), (6, False)])" .
  with step idle inst' whole fresh run(1) show ?thesis
    by (intro conjI) simp_all
qed

text \<open>
  C9. For a comparator without effects that is a strict total order, sorting is
  idempotent: the sort returns, and sorting its ranking again with the same comparator
  returns that ranking unchanged.
\<close>

theorem sort_is_idempotent:
  "strict_total_order p \<longrightarrow>
     (\<exists>out. mergeSortWithCmp items (pure_cmp p :: ('s, 'e) comparator) s = Inr (out, s)
        \<and> mergeSortWithCmp out (pure_cmp p :: ('s, 'e) comparator) s = Inr (out, s))"
proof
  assume ord: "strict_total_order p"
  let ?c = "pure_cmp p :: ('s, 'e) comparator"
  have "\<exists>out. mergeSortWithCmp items ?c s = Inr (out, s) \<and> ranked p out"
    by (rule sort_pure [OF ord])
  then obtain out where
    out: "mergeSortWithCmp items ?c s = Inr (out, s)" and ranked: "ranked p out"
    by (elim exE conjE)
  have "\<exists>again. mergeSortWithCmp out ?c s = Inr (again, s) \<and> ranked p again"
    by (rule sort_pure [OF ord])
  then obtain again where
    again: "mergeSortWithCmp out ?c s = Inr (again, s)" and ranked': "ranked p again"
    by (elim exE conjE)
  have "again = out"
    by (rule ranked_unique [OF ord ranked' ranked sort_mset [OF again]])
  with again have "mergeSortWithCmp out ?c s = Inr (out, s)"
    by simp
  with out show "\<exists>out. mergeSortWithCmp items ?c s = Inr (out, s)
        \<and> mergeSortWithCmp out ?c s = Inr (out, s)"
    by (intro exI [of _ out] conjI)
qed

theorem sort_is_idempotent_witness:
  "strict_total_order (\<lambda>a b. a < b)
   \<and> mergeSortWithCmp [''Cherry'', ''Apple'', ''Banana'', ''Apple''] (pure_cmp (\<lambda>a b. a < b)) ()
      = (Inr ([''Apple'', ''Apple'', ''Banana'', ''Cherry''], ()) :: unit + string list \<times> unit)
   \<and> mergeSortWithCmp [''Apple'', ''Apple'', ''Banana'', ''Cherry''] (pure_cmp (\<lambda>a b. a < b)) ()
      = (Inr ([''Apple'', ''Apple'', ''Banana'', ''Cherry''], ()) :: unit + string list \<times> unit)"
proof -
  let ?cmp = "pure_cmp (\<lambda>a b. a < b) :: (unit, unit) comparator"
  let ?items = "[''Cherry'', ''Apple'', ''Banana'', ''Apple'']"
  let ?ranking = "[''Apple'', ''Apple'', ''Banana'', ''Cherry'']"
  have run: "mergeSortWithCmp ?items ?cmp () = Inr (?ranking, ())"
    by (simp add: mergeSortWithCmp.simps mergeWithCmp_lists pure_cmp_def)
  from sort_is_idempotent [of "\<lambda>a b. a < b" ?items "()", THEN mp, OF alphabetical]
  obtain out where
    out: "mergeSortWithCmp ?items ?cmp () = Inr (out, ())" and
    again: "mergeSortWithCmp out ?cmp () = Inr (out, ())"
    by (elim exE conjE)
  from out run have "out = ?ranking"
    by simp
  with again run alphabetical show ?thesis
    by (intro conjI) simp_all
qed

text \<open>
  C10. The merge keeps the order inside each half, whatever the comparator answers:
  both \<open>left\<close> and \<open>right\<close> are subsequences of what \<open>mergeWithCmp\<close> (and
  \<open>interactiveMerge\<close>) returns. Hence the list returned by any recursive call of the
  sort is a subsequence of the final ranking.
\<close>

theorem merge_keeps_order_of_halves:
  "(mergeWithCmp left right cmp s = Inr (out, s') \<longrightarrow> subseq left out \<and> subseq right out)
   \<and> (interactiveMerge left right w = Inr (out', w') \<longrightarrow> subseq left out' \<and> subseq right out')
   \<and> (recursive_call cmp items s0 sub t \<and> mergeSortWithCmp items cmp s0 = Inr (ranking, s1) \<longrightarrow>
        (\<exists>part t'. mergeSortWithCmp sub cmp t = Inr (part, t') \<and> subseq part ranking))"
proof (intro conjI impI)
  assume "mergeWithCmp left right cmp s = Inr (out, s')"
  then have "merge_lists cmp left right s = Inr (out, s')"
    by (simp only: mergeWithCmp_lists)
  then have both: "subseq left out \<and> subseq right out"
    by (rule merge_lists_subseq)
  from both show "subseq left out" ..
  from both show "subseq right out" ..
next
  assume "interactiveMerge left right w = Inr (out', w')"
  then have "merge_lists askPreference left right w = Inr (out', w')"
    by (simp only: interactiveMerge_generic mergeWithCmp_lists)
  then have both: "subseq left out' \<and> subseq right out'"
    by (rule merge_lists_subseq)
  from both show "subseq left out'" ..
  from both show "subseq right out'" ..
next
  assume a: "recursive_call cmp items s0 sub t \<and> mergeSortWithCmp items cmp s0 = Inr (ranking, s1)"
  show "\<exists>part t'. mergeSortWithCmp sub cmp t = Inr (part, t') \<and> subseq part ranking"
    by (rule recursive_call_subseq [OF conjunct1 [OF a] conjunct2 [OF a]])
qed


theorem merge_keeps_order_of_halves_witness:
  "mergeWithCmp [''a'', ''d''] [''c'', ''b''] (pure_cmp (\<lambda>a b. a = ''d'')) ()
      = (Inr ([''c'', ''b'', ''a'', ''d''], ()) :: unit + string list \<times> unit)
   \<and> subseq [''a'', ''d''] [''c'', ''b'', ''a'', ''d'']
   \<and> subseq [''c'', ''b''] [''c'', ''b'', ''a'', ''d'']
   \<and> interactiveMerge [''a'', ''d''] [''c'', ''b''] \<lparr>stdin = ''2\<newline>1\<newline>1\<newline>'', stdout = [], stderr = []\<rparr>
      = Inr ([''c'', ''a'', ''d'', ''b''],
          \<lparr>stdin = [], stdout = prompt ''a'' ''c'' @ prompt ''a'' ''b'' @ prompt ''d'' ''b'',
           stderr = []\<rparr>)
   \<and> subseq [''a'', ''d''] [''c'', ''a'', ''d'', ''b'']
   \<and> subseq [''c'', ''b''] [''c'', ''a'', ''d'', ''b'']
   \<and> recursive_call (pure_cmp (\<lambda>a b. a = ''Y'') :: (unit, unit) comparator)
        [''X'', ''Y'', ''Z''] () [''Y'', ''Z''] ()
   \<and> mergeSortWithCmp [''X'', ''Y'', ''Z''] (pure_cmp (\<lambda>a b. a = ''Y'')) ()
      = (Inr ([''Y'', ''Z'', ''X''], ()) :: unit + string list \<times> unit)
   \<and> (\<exists>part t'. mergeSortWithCmp [''Y'', ''Z''] (pure_cmp (\<lambda>a b. a = ''Y'')) ()
          = (Inr (part, t') :: unit + string list \<times> unit)
        \<and> subseq part [''Y'', ''Z'', ''X''])"
proof -
  let ?cmp = "pure_cmp (\<lambda>a b. a = ''Y'') :: (unit, unit) comparator"
  let ?cmp' = "pure_cmp (\<lambda>a b. a = ''d'') :: (unit, unit) comparator"
  let ?w = "\<lparr>stdin = ''2\<newline>1\<newline>1\<newline>'', stdout = [], stderr = []\<rparr>"
  let ?w' = "\<lparr>stdin = [], stdout = prompt ''a'' ''c'' @ prompt ''a'' ''b'' @ prompt ''d'' ''b'',
    stderr = []\<rparr>"
  have generic: "mergeWithCmp [''a'', ''d''] [''c'', ''b''] ?cmp' ()
      = Inr ([''c'', ''b'', ''a'', ''d''], ())"
    by (simp add: mergeWithCmp_lists pure_cmp_def)
  have console: "interactiveMerge [''a'', ''d''] [''c'', ''b''] ?w = Inr ([''c'', ''a'', ''d'', ''b''], ?w')"
    by (simp add: interactiveMerge_generic mergeWithCmp_lists console_eval)
  have left: "mergeSortWithCmp (take (length [''X'', ''Y'', ''Z''] div 2) [''X'', ''Y'', ''Z'']) ?cmp ()
      = Inr ([''X''], ())"
    by (simp add: mergeSortWithCmp.simps)
  have "recursive_call ?cmp [''X'', ''Y'', ''Z''] ()
      (drop (length [''X'', ''Y'', ''Z''] div 2) [''X'', ''Y'', ''Z'']) ()"
    by (rule recursive_call.right_half [OF recursive_call.whole _ left]) simp
  then have call: "recursive_call ?cmp [''X'', ''Y'', ''Z''] () [''Y'', ''Z''] ()"
    by simp
  have whole: "mergeSortWithCmp [''X'', ''Y'', ''Z''] ?cmp () = Inr ([''Y'', ''Z'', ''X''], ())"
    by (simp add: mergeSortWithCmp.simps mergeWithCmp_lists pure_cmp_def)
  show ?thesis
    using merge_keeps_order_of_halves
      [of "[''a'', ''d'']" "[''c'', ''b'']" ?cmp' "()" "[''c'', ''b'', ''a'', ''d'']" "()"
        ?w "[''c'', ''a'', ''d'', ''b'']" ?w']
      merge_keeps_order_of_halves
      [of _ _ ?cmp _ _ _ _ _ _ "[''X'', ''Y'', ''Z'']" "()" "[''Y'', ''Z'']" "()"
        "[''Y'', ''Z'', ''X'']" "()"]
      generic console call whole
    by simp
qed

end
